theory Spec2Isabelle
  imports Main "HOL-Library.AList" "HOL-Library.Multiset"
begin

section \<open>Data model of \<open>grob.core.files\<close>\<close>

text \<open>
  Paths are strings. A Python \<open>dict\<close> is an association list that keeps insertion
  order: \<open>map_of\<close> reads a key, \<open>AList.update\<close> overwrites the value of a key in place
  or appends a new pair at the end, as assignment to a Python dict does.
\<close>

type_synonym path = string

text \<open>
  The keys of \<open>FileCollection.files\<close> are \<open>Union[GroupKey, MultiPartKey]\<close>. A
  \<open>MultiPartKey\<close> is a \<open>frozendict\<close> from part name to captured text: two of them are
  equal when they map the same names to the same values, so it is a map. A \<open>GroupKey\<close>
  is a formatted string.
\<close>

datatype key = MultiPartKey "string \<rightharpoonup> string" | GroupKey string

text \<open>The values of \<open>FileCollection.files\<close> and of a group: \<open>Union[Path, List[Path]]\<close>.\<close>

datatype entry = Single path | Multiple "path list"

text \<open>
  What \<open>files.py\<close> can raise: \<open>ValueError(file)\<close> at line 26, and the
  \<open>AttributeError\<close> of Python when \<open>.append\<close> is called on a stored \<open>Path\<close>
  (line 21) or \<open>.keys()\<close> on a string key (line 74).
\<close>

datatype error = ValueError path | AttributeError

text \<open>
  Modelled from the spec: the classes of \<open>grob.core.tags\<close>, which \<open>files.py\<close> imports
  and which are not among the source files. A tag has a name, a parser (a callable from a
  path to a key or \<open>None\<close>, carrying the attribute \<open>key_parts\<close>), the flag
  \<open>allow_multiple\<close>, and one of three kinds; only a \<open>DistributableTag\<close> carries
  \<open>distribute_over\<close>.
\<close>

record Parser =
  call :: "path \<Rightarrow> key option"
  key_parts :: "string list"

datatype tag_kind = PlainTag | MultiPartTag | DistributableTag "string list"

record Tag =
  name :: string
  parser :: Parser
  allow_multiple :: bool
  kind :: tag_kind

record FileCollection =
  tag :: Tag
  files :: "(key \<times> entry) list"

section \<open>\<open>FileCollection.add_if_matches\<close>\<close>

text \<open>
  The method mutates \<open>self.files\<close> and returns a flag; the model returns the updated
  collection with the flag, or the exception raised.
\<close>

definition add_if_matches :: "FileCollection \<Rightarrow> path \<Rightarrow> error + (FileCollection \<times> bool)" where
  "add_if_matches self file =
     (case call (parser (tag self)) file of
        None \<Rightarrow> Inr (self, False)
      | Some k \<Rightarrow>
          if allow_multiple (tag self) then
            (case map_of (files self) k of
               None \<Rightarrow> Inr (self\<lparr>files := AList.update k (Multiple [file]) (files self)\<rparr>, True)
             | Some (Multiple ps) \<Rightarrow>
                 Inr (self\<lparr>files := AList.update k (Multiple (ps @ [file])) (files self)\<rparr>, True)
             | Some (Single p) \<Rightarrow> Inl AttributeError)
          else if map_of (files self) k = None then
            Inr (self\<lparr>files := AList.update k (Single file) (files self)\<rparr>, True)
          else Inl (ValueError file))"

section \<open>\<open>find_by_tag\<close>\<close>

text \<open>The inner loop of \<open>find_by_tag\<close>: offer the file to each collection, stop at the first that takes it.\<close>

fun offer :: "FileCollection list \<Rightarrow> path \<Rightarrow> error + FileCollection list" where
  "offer [] file = Inr []"
| "offer (c # cs) file =
     (case add_if_matches c file of
        Inl e \<Rightarrow> Inl e
      | Inr (c', added) \<Rightarrow>
          if added then Inr (c' # cs)
          else (case offer cs file of Inl e \<Rightarrow> Inl e | Inr cs' \<Rightarrow> Inr (c' # cs')))"

text \<open>The outer loop over the files.\<close>

fun route :: "FileCollection list \<Rightarrow> path list \<Rightarrow> error + FileCollection list" where
  "route cs [] = Inr cs"
| "route cs (file # rest) =
     (case offer cs file of Inl e \<Rightarrow> Inl e | Inr cs' \<Rightarrow> route cs' rest)"

definition new_collection :: "Tag \<Rightarrow> FileCollection" where
  "new_collection t = \<lparr>tag = t, files = []\<rparr>"

definition find_by_tag :: "path list \<Rightarrow> Tag list \<Rightarrow> error + FileCollection list" where
  "find_by_tag fs tags = route (map new_collection tags) fs"

section \<open>\<open>group_by_key\<close>\<close>

type_synonym group = "(string \<times> entry) list"
type_synonym groups = "(key \<times> group) list"

definition is_distributable :: "FileCollection \<Rightarrow> bool" where
  "is_distributable c = (case kind (tag c) of DistributableTag ds \<Rightarrow> True | _ \<Rightarrow> False)"

definition is_multi_part :: "FileCollection \<Rightarrow> bool" where
  "is_multi_part c = (kind (tag c) = MultiPartTag)"

definition is_single_part :: "FileCollection \<Rightarrow> bool" where
  "is_single_part c = (kind (tag c) = PlainTag)"

definition distribute_over :: "Tag \<Rightarrow> string list" where
  "distribute_over t = (case kind t of DistributableTag ds \<Rightarrow> ds | _ \<Rightarrow> [])"

definition n_key_parts :: "FileCollection \<Rightarrow> nat" where
  "n_key_parts c = length (key_parts (parser (tag c)))"

text \<open>
  \<open>_sort_collections_by_type\<close>: three buckets filled in input order, the distributable
  one then sorted by the number of key parts (\<open>sorted\<close> is stable, as \<open>sort_key\<close> is).
\<close>

definition sort_collections_by_type ::
  "FileCollection list \<Rightarrow> FileCollection list \<times> FileCollection list \<times> FileCollection list" where
  "sort_collections_by_type cs =
     (filter is_multi_part cs,
      sort_key n_key_parts (filter is_distributable cs),
      filter is_single_part cs)"

text \<open>\<open>groups.setdefault(key, {})[name] = path\<close>\<close>

definition put :: "key \<Rightarrow> string \<Rightarrow> entry \<Rightarrow> groups \<Rightarrow> groups" where
  "put k n p gs =
     AList.update k (AList.update n p (case map_of gs k of None \<Rightarrow> [] | Some g \<Rightarrow> g)) gs"

text \<open>One collection's \<open>files.items()\<close> put into the groups under the tag's name (lines 70-71 and 80-81).\<close>

definition merge_collection :: "groups \<Rightarrow> FileCollection \<Rightarrow> groups" where
  "merge_collection gs c = foldl (\<lambda>acc (k, p). put k (name (tag c)) p acc) gs (files c)"

text \<open>
  Lines 73-77 for one distributable collection. The loop changes the groups in place and
  no key of \<open>groups\<close>; \<open>key.keys()\<close> on a key that is not a \<open>frozendict\<close> raises.
\<close>

definition join_key :: "(string \<rightharpoonup> string) \<Rightarrow> string list \<Rightarrow> key" where
  "join_key m ds = MultiPartKey (m |` (- set ds))"

fun distribute :: "FileCollection \<Rightarrow> groups \<Rightarrow> error + groups" where
  "distribute c [] = Inr []"
| "distribute c ((GroupKey s, g) # rest) = Inl AttributeError"
| "distribute c ((MultiPartKey m, g) # rest) =
     (let g' = (case map_of (files c) (join_key m (distribute_over (tag c))) of
                  None \<Rightarrow> g
                | Some p \<Rightarrow> AList.update (name (tag c)) p g)
      in case distribute c rest of Inl e \<Rightarrow> Inl e | Inr rest' \<Rightarrow> Inr ((MultiPartKey m, g') # rest'))"

fun distribute_all :: "FileCollection list \<Rightarrow> groups \<Rightarrow> error + groups" where
  "distribute_all [] gs = Inr gs"
| "distribute_all (c # cs) gs =
     (case distribute c gs of Inl e \<Rightarrow> Inl e | Inr gs' \<Rightarrow> distribute_all cs gs')"

text \<open>Line 78: the dict comprehension; a later group replaces an earlier one with the same formatted key.\<close>

definition format_groups :: "(key \<Rightarrow> key) \<Rightarrow> groups \<Rightarrow> groups" where
  "format_groups key_formatter gs = foldl (\<lambda>acc (k, g). AList.update (key_formatter k) g acc) [] gs"

definition group_by_key :: "FileCollection list \<Rightarrow> (key \<Rightarrow> key) \<Rightarrow> error + groups" where
  "group_by_key file_collections key_formatter =
     (case sort_collections_by_type file_collections of
        (multi_part_collections, distributable_collections, single_part_collections) \<Rightarrow>
          (case distribute_all distributable_collections (foldl merge_collection [] multi_part_collections) of
             Inl e \<Rightarrow> Inl e
           | Inr gs \<Rightarrow> Inr (foldl merge_collection (format_groups key_formatter gs) single_part_collections)))"

section \<open>\<open>PathParser\<close>: patterns\<close>

text \<open>
  Modelled from the spec: the class \<open>PathParser\<close> of \<open>grob.core.path_parser\<close>, which
  the tests import and which is not among the source files. The model follows section 4.1
  of the specification: the token rules 1 to 3 over the raw pattern text, rule 4 for a
  part of the native regular-expression syntax (characters, \<open>.\<close>, groups, \<open>|\<close>, the
  greedy quantifiers \<open>*\<close>, \<open>+\<close>, \<open>?\<close>, an escaped character and \<open>\d\<close>), and rule 5, the
  match of the whole path. Native syntax outside that part (character classes, anchors,
  \<open>(?\<dots>)\<close> groups, lazy quantifiers, other escapes) gives the outcome \<open>Unsupported\<close>:
  the model says nothing about the matches of such a pattern.
\<close>

datatype compile_error = PatternCompileError | RegexError | Unsupported

text \<open>
  The tokens of rules 1 to 4: an escaped brace, a placeholder with its name and whether
  it is greedy (\<open>!g\<close>), a \<open>*\<close> that is a path segment of its own, and any other
  character, passed through.
\<close>

datatype token = Literal char | Placeholder string bool | SegmentWildcard | Native char

text \<open>A name is an identifier: letters, digits and \<open>_\<close>, not starting with a digit.\<close>

definition is_word_char :: "char \<Rightarrow> bool" where
  "is_word_char c = (c \<in> set ''abcdefghijklmnopqrstuvwxyzABCDEFGHIJKLMNOPQRSTUVWXYZ0123456789_'')"

definition is_digit :: "char \<Rightarrow> bool" where
  "is_digit c = (c \<in> set ''0123456789'')"

definition is_identifier :: "string \<Rightarrow> bool" where
  "is_identifier n = (n \<noteq> [] \<and> (\<forall>c\<in>set n. is_word_char c) \<and> \<not> is_digit (hd n))"

definition emit :: "'a \<Rightarrow> compile_error + 'a list \<Rightarrow> compile_error + 'a list" where
  "emit x r = (case r of Inl e \<Rightarrow> Inl e | Inr xs \<Rightarrow> Inr (x # xs))"

text \<open>
  The rules applied left to right. \<open>at_start\<close> says that the previous character was a
  path separator or that this is the start of the pattern: a \<open>*\<close> there, followed by a
  separator or by the end, is a segment wildcard. A brace that is neither escaped nor
  part of a placeholder is a \<open>PatternCompileError\<close>.
\<close>

function tokenize :: "bool \<Rightarrow> string \<Rightarrow> compile_error + token list" where
  "tokenize at_start [] = Inr []"
| "tokenize at_start (c # cs) =
     (if c = CHR 0x5C \<and> cs \<noteq> [] \<and> (hd cs = CHR ''{'' \<or> hd cs = CHR ''}'') then
        emit (Literal (hd cs)) (tokenize False (tl cs))
      else if c = CHR ''{'' then
        (let n = takeWhile is_word_char cs; rest = dropWhile is_word_char cs in
         if \<not> is_identifier n then Inl PatternCompileError
         else if take 1 rest = ''}'' then emit (Placeholder n False) (tokenize False (drop 1 rest))
         else if take 3 rest = ''!g}'' then emit (Placeholder n True) (tokenize False (drop 3 rest))
         else Inl PatternCompileError)
      else if c = CHR ''}'' then Inl PatternCompileError
      else if c = CHR ''*'' \<and> at_start \<and> (cs = [] \<or> hd cs = CHR ''/'') then
        emit SegmentWildcard (tokenize False cs)
      else emit (Native c) (tokenize (c = CHR ''/'') cs))"
  by pat_completeness auto
termination
proof (relation "measure (\<lambda>(b, s). length s)")
  show "wf (measure (\<lambda>(b, s). length s))" by simp
next
  fix at_start :: bool and c :: char and cs :: string
  assume "c = CHR 0x5C \<and> cs \<noteq> [] \<and> (hd cs = CHR ''{'' \<or> hd cs = CHR ''}'')"
  then show "((False, tl cs), at_start, c # cs) \<in> measure (\<lambda>(b, s). length s)" by simp
next
  fix at_start :: bool and c :: char and cs x xa :: string
  assume "x = takeWhile is_word_char cs" "xa = dropWhile is_word_char cs"
  then have "length xa \<le> length cs" by (simp add: length_dropWhile_le)
  then show "((False, drop 1 xa), at_start, c # cs) \<in> measure (\<lambda>(b, s). length s)" by simp
next
  fix at_start :: bool and c :: char and cs x xa :: string
  assume "x = takeWhile is_word_char cs" "xa = dropWhile is_word_char cs"
  then have "length xa \<le> length cs" by (simp add: length_dropWhile_le)
  then show "((False, drop 3 xa), at_start, c # cs) \<in> measure (\<lambda>(b, s). length s)" by simp
qed simp_all

text \<open>
  \<open>key_parts\<close>: the names of the placeholders in the order of the pattern. It is found
  from the tokens alone, so it is defined for every pattern without a brace error, also
  where the native syntax is not one the model matches.
\<close>

definition placeholder_names :: "token list \<Rightarrow> string list" where
  "placeholder_names ts = concat (map (\<lambda>t. case t of Placeholder n g \<Rightarrow> [n] | _ \<Rightarrow> []) ts)"

definition pattern_key_parts :: "string \<Rightarrow> compile_error + string list" where
  "pattern_key_parts pattern =
     (case tokenize True pattern of Inl e \<Rightarrow> Inl e | Inr ts \<Rightarrow> Inr (placeholder_names ts))"

section \<open>\<open>PathParser\<close>: the matching expression\<close>

text \<open>
  The compiled expression. \<open>Capture n greedy\<close> is a placeholder: a named capture of one
  or more characters, any character, the shortest run first unless greedy. \<open>Segment\<close> is
  the segment wildcard: one or more characters other than the separator.
\<close>

datatype quantifier = ZeroOrMore | OneOrMore | ZeroOrOne

datatype rx =
    Empty
  | Chr char
  | AnyChar
  | Digit
  | Capture string bool
  | Segment
  | Then rx rx
  | Or rx rx
  | Repeat quantifier rx

text \<open>The native syntax read character by character (rule 4).\<close>

datatype symbol = Atom rx | Open | Close | Bar | Quant quantifier

fun symbols :: "token list \<Rightarrow> compile_error + symbol list" where
  "symbols [] = Inr []"
| "symbols (Literal c # ts) = emit (Atom (Chr c)) (symbols ts)"
| "symbols (Placeholder n g # ts) = emit (Atom (Capture n g)) (symbols ts)"
| "symbols (SegmentWildcard # ts) = emit (Atom Segment) (symbols ts)"
| "symbols (Native c # ts) =
     (if c = CHR 0x5C then
        (case ts of
           Native d # ts' \<Rightarrow>
             if d = CHR ''d'' then emit (Atom Digit) (symbols ts')
             else if is_word_char d then Inl Unsupported
             else emit (Atom (Chr d)) (symbols ts')
         | _ \<Rightarrow> Inl RegexError)
      else if c = CHR ''('' then
        (case ts of
           Native q # ts' \<Rightarrow> if q = CHR ''?'' then Inl Unsupported else emit Open (symbols ts)
         | _ \<Rightarrow> emit Open (symbols ts))
      else if c = CHR '')'' then emit Close (symbols ts)
      else if c = CHR ''|'' then emit Bar (symbols ts)
      else if c = CHR ''*'' then emit (Quant ZeroOrMore) (symbols ts)
      else if c = CHR ''+'' then emit (Quant OneOrMore) (symbols ts)
      else if c = CHR ''?'' then emit (Quant ZeroOrOne) (symbols ts)
      else if c = CHR ''.'' then emit (Atom AnyChar) (symbols ts)
      else if c \<in> set ''[]^$'' then Inl Unsupported
      else emit (Atom (Chr c)) (symbols ts))"

text \<open>
  Groups and alternatives are built with a stack of open groups; a frame holds the
  finished alternatives of a group and the items of the current one, both latest first.
\<close>

type_synonym frame = "rx list \<times> rx list"

definition sequence :: "rx list \<Rightarrow> rx" where
  "sequence items = foldl (\<lambda>acc r. Then r acc) Empty items"

definition close_frame :: "frame \<Rightarrow> rx" where
  "close_frame f = foldl (\<lambda>acc a. Or a acc) (sequence (snd f)) (fst f)"

fun build :: "symbol list \<Rightarrow> frame \<Rightarrow> frame list \<Rightarrow> compile_error + rx" where
  "build [] f stack = (if stack = [] then Inr (close_frame f) else Inl RegexError)"
| "build (Atom r # ss) (alts, cur) stack = build ss (alts, r # cur) stack"
| "build (Open # ss) f stack = build ss ([], []) (f # stack)"
| "build (Close # ss) f stack =
     (case stack of
        [] \<Rightarrow> Inl RegexError
      | (alts, cur) # stack' \<Rightarrow> build ss (alts, close_frame f # cur) stack')"
| "build (Bar # ss) (alts, cur) stack = build ss (sequence cur # alts, []) stack"
| "build (Quant q # ss) (alts, cur) stack =
     (case cur of
        [] \<Rightarrow> Inl RegexError
      | Repeat q' r # cur' \<Rightarrow> Inl Unsupported
      | r # cur' \<Rightarrow> build ss (alts, Repeat q r # cur') stack)"

definition compile :: "string \<Rightarrow> compile_error + rx" where
  "compile pattern =
     (case tokenize True pattern of
        Inl e \<Rightarrow> Inl e
      | Inr ts \<Rightarrow> (case symbols ts of Inl e \<Rightarrow> Inl e | Inr ss \<Rightarrow> build ss ([], []) []))"

section \<open>\<open>PathParser\<close>: matching\<close>

text \<open>
  A match is recorded as the pieces of the path it went through, in order: a character
  matched by the native syntax, the text of a capture, the text of a segment wildcard.
  \<open>run r s tr\<close> lists every way \<open>r\<close> matches a prefix of \<open>s\<close>, as the rest of \<open>s\<close> with the
  pieces added to \<open>tr\<close>, in the order a backtracking matcher tries them: the first
  alternative first, the shortest capture first (the longest when greedy), one more
  repetition before none. A repetition that consumed nothing is not repeated.
\<close>

datatype piece = Text char | Captured string string | Wildcard string

fun splits :: "string \<Rightarrow> (string \<times> string) list" where
  "splits [] = []"
| "splits (c # cs) = ([c], cs) # map (\<lambda>(p, r). (c # p, r)) (splits cs)"

fun weight :: "rx \<Rightarrow> nat" where
  "weight (Then a b) = Suc (weight a + weight b)"
| "weight (Or a b) = Suc (weight a + weight b)"
| "weight (Repeat q a) = (case q of OneOrMore \<Rightarrow> Suc (Suc (weight a)) | _ \<Rightarrow> Suc (weight a))"
| "weight r = 0"

function run :: "rx \<Rightarrow> string \<Rightarrow> piece list \<Rightarrow> (string \<times> piece list) list" where
  run_Empty: "run Empty s tr = [(s, tr)]"
| run_Chr: "run (Chr c) s tr = (case s of [] \<Rightarrow> [] | x # xs \<Rightarrow> if x = c then [(xs, tr @ [Text x])] else [])"
| run_AnyChar: "run AnyChar s tr = (case s of [] \<Rightarrow> [] | x # xs \<Rightarrow> if x \<noteq> CHR 0x0A then [(xs, tr @ [Text x])] else [])"
| run_Digit: "run Digit s tr = (case s of [] \<Rightarrow> [] | x # xs \<Rightarrow> if is_digit x then [(xs, tr @ [Text x])] else [])"
| run_Capture: "run (Capture n greedy) s tr =
     map (\<lambda>(p, r). (r, tr @ [Captured n p])) (if greedy then rev (splits s) else splits s)"
| run_Segment: "run Segment s tr =
     map (\<lambda>(p, r). (r, tr @ [Wildcard p])) (rev (filter (\<lambda>(p, r). CHR ''/'' \<notin> set p) (splits s)))"
| run_Then: "run (Then a b) s tr = concat (map (\<lambda>(s', tr'). run b s' tr') (run a s tr))"
| run_Or: "run (Or a b) s tr = run a s tr @ run b s tr"
| run_Opt: "run (Repeat ZeroOrOne a) s tr = run a s tr @ [(s, tr)]"
| run_Star: "run (Repeat ZeroOrMore a) s tr =
     concat (map (\<lambda>(s', tr'). run (Repeat ZeroOrMore a) s' tr')
                 (filter (\<lambda>(s', tr'). length s' < length s) (run a s tr))) @ [(s, tr)]"
| run_Plus: "run (Repeat OneOrMore a) s tr =
     concat (map (\<lambda>(s', tr'). run (Repeat ZeroOrMore a) s' tr') (run a s tr))"
  by pat_completeness auto
termination
  by (relation "inv_image (less_than <*lex*> less_than) (\<lambda>(r, s, tr). (weight r, length s))") auto

text \<open>
  The equation of the repetition unfolds itself under the simplifier, so the equations
  are used by name.
\<close>

declare run.simps [simp del]

text \<open>Rule 5: the first way that matches the whole path.\<close>

definition fullmatch :: "rx \<Rightarrow> string \<Rightarrow> piece list option" where
  "fullmatch r s =
     (case filter (\<lambda>(rest, tr). rest = []) (run r s []) of
        [] \<Rightarrow> None
      | (rest, tr) # others \<Rightarrow> Some tr)"

text \<open>The captures of a match, by name; a name captured again takes the later text.\<close>

definition groupdict :: "piece list \<Rightarrow> (string \<times> string) list" where
  "groupdict tr = foldl (\<lambda>al p. case p of Captured n v \<Rightarrow> AList.update n v al | _ \<Rightarrow> al) [] tr"

text \<open>
  The parser object: \<open>call\<close> is \<open>match(path)\<close>, the key of the captures or \<open>None\<close>;
  \<open>key_parts\<close> is the list of part names. \<open>match_path\<close> is \<open>PathParser(pattern)(path)\<close>.
\<close>

definition PathParser :: "string \<Rightarrow> compile_error + Parser" where
  "PathParser pattern =
     (case tokenize True pattern of
        Inl e \<Rightarrow> Inl e
      | Inr ts \<Rightarrow>
          (case compile pattern of
             Inl e \<Rightarrow> Inl e
           | Inr r \<Rightarrow>
               Inr \<lparr>call = (\<lambda>path. map_option (\<lambda>tr. MultiPartKey (map_of (groupdict tr))) (fullmatch r path)),
                    key_parts = placeholder_names ts\<rparr>))"

definition match_path :: "string \<Rightarrow> path \<Rightarrow> compile_error + key option" where
  "match_path pattern path = (case PathParser pattern of Inl e \<Rightarrow> Inl e | Inr p \<Rightarrow> Inr (call p path))"


section \<open>Vocabulary of the properties\<close>

text \<open>A tag matches a file when its parser returns a key.\<close>

definition matches :: "Tag \<Rightarrow> path \<Rightarrow> bool" where
  "matches t f = (call (parser t) f \<noteq> None)"

text \<open>The paths a collection holds: the values of \<open>files\<close>, a list counted by its members.\<close>

fun entry_paths :: "entry \<Rightarrow> path set" where
  "entry_paths (Single p) = {p}"
| "entry_paths (Multiple ps) = set ps"

definition held :: "(key \<times> entry) list \<Rightarrow> path set" where
  "held al = (\<Union>e \<in> snd ` set al. entry_paths e)"

definition paths_of :: "FileCollection \<Rightarrow> path set" where
  "paths_of c = held (files c)"

text \<open>
  A caller that hands files to one collection, one \<open>add_if_matches\<close> call after the
  other; \<open>lists_only\<close> says that every stored value is a list, as in a collection of a
  tag with \<open>allow_multiple\<close> that was filled by \<open>add_if_matches\<close>; \<open>stored\<close> reads the
  list at a key, empty when the key is absent.
\<close>

fun add_all :: "FileCollection \<Rightarrow> path list \<Rightarrow> error + FileCollection" where
  "add_all c [] = Inr c"
| "add_all c (f # fs) =
     (case add_if_matches c f of Inl e \<Rightarrow> Inl e | Inr (c', added) \<Rightarrow> add_all c' fs)"

definition lists_only :: "FileCollection \<Rightarrow> bool" where
  "lists_only c = (\<forall>k p. map_of (files c) k \<noteq> Some (Single p))"

definition stored :: "FileCollection \<Rightarrow> key \<Rightarrow> path list" where
  "stored c k = (case map_of (files c) k of Some (Multiple ps) \<Rightarrow> ps | _ \<Rightarrow> [])"

text \<open>
  A pattern put together from parts: raw text that has no brace and does not end with a
  backslash (native syntax included), an escaped brace, a placeholder (a hole) with a
  name and a greediness flag. \<open>render\<close> writes the parts out as the pattern text;
  \<open>hole_names\<close> lists the names of the holes in order; \<open>lazy\<close> drops the \<open>!g\<close> of a hole.
  \<open>names_of\<close> reads the part names off the outcome of \<open>tokenize\<close>.
\<close>

datatype part = Raw string | EscapedBrace char | Hole string bool

fun render_part :: "part \<Rightarrow> string" where
  "render_part (Raw s) = s"
| "render_part (EscapedBrace c) = [CHR 0x5C, c]"
| "render_part (Hole n greedy) = ''{'' @ n @ (if greedy then ''!g'' else []) @ ''}''"

definition render :: "part list \<Rightarrow> string" where
  "render ps = concat (map render_part ps)"

fun well_formed :: "part \<Rightarrow> bool" where
  "well_formed (Raw s) = (CHR ''{'' \<notin> set s \<and> CHR ''}'' \<notin> set s \<and> (s = [] \<or> last s \<noteq> CHR 0x5C))"
| "well_formed (EscapedBrace c) = (c = CHR ''{'' \<or> c = CHR ''}'')"
| "well_formed (Hole n greedy) = is_identifier n"

fun hole_names :: "part list \<Rightarrow> string list" where
  "hole_names [] = []"
| "hole_names (Hole n greedy # ps) = n # hole_names ps"
| "hole_names (p # ps) = hole_names ps"

fun lazy :: "part \<Rightarrow> part" where
  "lazy (Hole n greedy) = Hole n False"
| "lazy p = p"

definition names_of :: "compile_error + token list \<Rightarrow> compile_error + string list" where
  "names_of r = (case r of Inl e \<Rightarrow> Inl e | Inr ts \<Rightarrow> Inr (placeholder_names ts))"



definition match_groups :: "string \<Rightarrow> path \<Rightarrow> compile_error + (string \<times> string) list option" where
  "match_groups pattern path =
     (case compile pattern of Inl e \<Rightarrow> Inl e | Inr r \<Rightarrow> Inr (map_option groupdict (fullmatch r path)))"

text \<open>
  What remains of a two-placeholder pattern \<open>{a}-{b}\<close> once the first capture has taken its
  prefix: the complete matches of \<open>-{b}\<close> on the rest \<open>r\<close>, continuing the trace \<open>tr\<close>.
\<close>

definition after_dash :: "string \<Rightarrow> string \<Rightarrow> piece list \<Rightarrow> (string \<times> piece list) list" where
  "after_dash b r tr =
     filter (\<lambda>(rest, tr'). rest = []) (run (Then (Chr CHR ''-'') (Then (Capture b False) Empty)) r tr)"









text \<open>
  The tokens and the expression of such a pattern, written out: \<open>prepend\<close> puts tokens
  in front of an outcome of \<open>tokenize\<close>; a flat token is one that \<open>symbols\<close> reads as
  the single item \<open>token_rx\<close>; \<open>takes r w\<close> says that the item \<open>r\<close> matches exactly the
  text \<open>w\<close>, and \<open>spells ts w\<close> that \<open>w\<close> is cut into one such text per token.
\<close>

definition prepend :: "'a list \<Rightarrow> compile_error + 'a list \<Rightarrow> compile_error + 'a list" where
  "prepend xs r = (case r of Inl e \<Rightarrow> Inl e | Inr ys \<Rightarrow> Inr (xs @ ys))"








section \<open>Example inputs\<close>

text \<open>
  Three tags whose parsers are given by their tables: \<open>image\<close> takes the two pictures,
  \<open>any\<close> would take \<open>1.jpg\<close> too but comes second, \<open>audio\<close> matches none of the files.
\<close>

definition example_tags :: "Tag list" where
  "example_tags =
     [\<lparr>name = ''image'',
       parser = \<lparr>call = map_of [(''1.jpg'', GroupKey ''1''), (''2.jpg'', GroupKey ''2'')], key_parts = []\<rparr>,
       allow_multiple = False, kind = PlainTag\<rparr>,
      \<lparr>name = ''any'',
       parser = \<lparr>call = map_of [(''1.jpg'', GroupKey ''1''), (''1.txt'', GroupKey ''1'')], key_parts = []\<rparr>,
       allow_multiple = False, kind = PlainTag\<rparr>,
      \<lparr>name = ''audio'',
       parser = \<lparr>call = map_of [(''1.wav'', GroupKey ''1'')], key_parts = []\<rparr>,
       allow_multiple = False, kind = PlainTag\<rparr>]"

definition example_files :: "path list" where
  "example_files = [''1.jpg'', ''1.txt'', ''notes.md'', ''2.jpg'']"

definition example_collections :: "FileCollection list" where
  "example_collections =
     [\<lparr>tag = example_tags ! 0, files = [(GroupKey ''1'', Single ''1.jpg''), (GroupKey ''2'', Single ''2.jpg'')]\<rparr>,
      \<lparr>tag = example_tags ! 1, files = [(GroupKey ''1'', Single ''1.txt'')]\<rparr>,
      \<lparr>tag = example_tags ! 2, files = []\<rparr>]"

text \<open>
  A tag in the way of the spec's scenario \<open>{id}.jpg\<close> (two files share the key
  \<open>id = 1\<close>), and a single-part tag that gives the same new file another key.
\<close>

definition example_photo :: Tag where
  "example_photo =
     \<lparr>name = ''photo'',
      parser = \<lparr>call = map_of [(''a/1.jpg'', MultiPartKey [''id'' \<mapsto> ''1'']),
                                 (''b/1.jpg'', MultiPartKey [''id'' \<mapsto> ''1'']),
                                 (''a/2.jpg'', MultiPartKey [''id'' \<mapsto> ''2''])],
                key_parts = [''id'']\<rparr>,
      allow_multiple = False, kind = MultiPartTag\<rparr>"

definition example_scan :: Tag where
  "example_scan =
     \<lparr>name = ''scan'',
      parser = \<lparr>call = map_of [(''old/7.png'', GroupKey ''7''), (''b/1.jpg'', GroupKey ''7'')],
                key_parts = []\<rparr>,
      allow_multiple = False, kind = PlainTag\<rparr>"

text \<open>
  The spec's scenario of a distributable join, grown by one tag of each kind: crops keyed
  by \<open>id\<close> and \<open>crop_index\<close>, a caption per \<open>id\<close> distributed over \<open>crop_index\<close>,
  one license distributed over both parts, and notes of a single-part tag whose keys are
  group keys already. \<open>group_by_key\<close> never calls a parser, so the parsers here match
  nothing and only carry their key parts. The groups after each phase are written out.
\<close>

definition no_parser :: "string list \<Rightarrow> Parser" where
  "no_parser parts = \<lparr>call = (\<lambda>f. None), key_parts = parts\<rparr>"

definition example_crops :: FileCollection where
  "example_crops =
     \<lparr>tag = \<lparr>name = ''crop'', parser = no_parser [''id'', ''crop_index''],
              allow_multiple = False, kind = MultiPartTag\<rparr>,
      files = [(MultiPartKey [''id'' \<mapsto> ''1'', ''crop_index'' \<mapsto> ''0''], Single ''1_0.jpg''),
               (MultiPartKey [''id'' \<mapsto> ''1'', ''crop_index'' \<mapsto> ''1''], Single ''1_1.jpg''),
               (MultiPartKey [''id'' \<mapsto> ''2'', ''crop_index'' \<mapsto> ''0''], Single ''2_0.jpg'')]\<rparr>"

definition example_captions :: FileCollection where
  "example_captions =
     \<lparr>tag = \<lparr>name = ''caption'', parser = no_parser [''id''],
              allow_multiple = False, kind = DistributableTag [''crop_index'']\<rparr>,
      files = [(MultiPartKey [''id'' \<mapsto> ''1''], Single ''1.txt'')]\<rparr>"

definition example_licenses :: FileCollection where
  "example_licenses =
     \<lparr>tag = \<lparr>name = ''license'', parser = no_parser [],
              allow_multiple = False, kind = DistributableTag [''id'', ''crop_index'']\<rparr>,
      files = [(MultiPartKey Map.empty, Single ''LICENSE'')]\<rparr>"

definition example_notes :: FileCollection where
  "example_notes =
     \<lparr>tag = \<lparr>name = ''note'', parser = no_parser [],
              allow_multiple = False, kind = PlainTag\<rparr>,
      files = [(GroupKey ''1_0'', Single ''1_0.note''), (GroupKey ''misc'', Single ''misc.note'')]\<rparr>"

definition example_key_formatter :: "key \<Rightarrow> key" where
  "example_key_formatter k =
     (case k of
        MultiPartKey m \<Rightarrow>
          GroupKey ((case m ''id'' of None \<Rightarrow> [] | Some v \<Rightarrow> v) @ ''_'' @
                    (case m ''crop_index'' of None \<Rightarrow> [] | Some v \<Rightarrow> v))
      | GroupKey s \<Rightarrow> GroupKey s)"

definition example_input :: "FileCollection list" where
  "example_input = [example_captions, example_notes, example_crops, example_licenses]"

definition example_groups1 :: groups where
  "example_groups1 =
     [(MultiPartKey [''id'' \<mapsto> ''1'', ''crop_index'' \<mapsto> ''0''], [(''crop'', Single ''1_0.jpg'')]),
      (MultiPartKey [''id'' \<mapsto> ''1'', ''crop_index'' \<mapsto> ''1''], [(''crop'', Single ''1_1.jpg'')]),
      (MultiPartKey [''id'' \<mapsto> ''2'', ''crop_index'' \<mapsto> ''0''], [(''crop'', Single ''2_0.jpg'')])]"

definition example_groups2 :: groups where
  "example_groups2 =
     [(MultiPartKey [''id'' \<mapsto> ''1'', ''crop_index'' \<mapsto> ''0''],
         [(''crop'', Single ''1_0.jpg''), (''license'', Single ''LICENSE'')]),
      (MultiPartKey [''id'' \<mapsto> ''1'', ''crop_index'' \<mapsto> ''1''],
         [(''crop'', Single ''1_1.jpg''), (''license'', Single ''LICENSE'')]),
      (MultiPartKey [''id'' \<mapsto> ''2'', ''crop_index'' \<mapsto> ''0''],
         [(''crop'', Single ''2_0.jpg''), (''license'', Single ''LICENSE'')])]"

definition example_groups3 :: groups where
  "example_groups3 =
     [(MultiPartKey [''id'' \<mapsto> ''1'', ''crop_index'' \<mapsto> ''0''],
         [(''crop'', Single ''1_0.jpg''), (''license'', Single ''LICENSE''), (''caption'', Single ''1.txt'')]),
      (MultiPartKey [''id'' \<mapsto> ''1'', ''crop_index'' \<mapsto> ''1''],
         [(''crop'', Single ''1_1.jpg''), (''license'', Single ''LICENSE''), (''caption'', Single ''1.txt'')]),
      (MultiPartKey [''id'' \<mapsto> ''2'', ''crop_index'' \<mapsto> ''0''],
         [(''crop'', Single ''2_0.jpg''), (''license'', Single ''LICENSE'')])]"

definition example_formatted :: groups where
  "example_formatted =
     [(GroupKey ''1_0'',
         [(''crop'', Single ''1_0.jpg''), (''license'', Single ''LICENSE''), (''caption'', Single ''1.txt'')]),
      (GroupKey ''1_1'',
         [(''crop'', Single ''1_1.jpg''), (''license'', Single ''LICENSE''), (''caption'', Single ''1.txt'')]),
      (GroupKey ''2_0'',
         [(''crop'', Single ''2_0.jpg''), (''license'', Single ''LICENSE'')])]"

definition example_result :: groups where
  "example_result =
     [(GroupKey ''1_0'',
         [(''crop'', Single ''1_0.jpg''), (''license'', Single ''LICENSE''), (''caption'', Single ''1.txt''),
          (''note'', Single ''1_0.note'')]),
      (GroupKey ''1_1'',
         [(''crop'', Single ''1_1.jpg''), (''license'', Single ''LICENSE''), (''caption'', Single ''1.txt'')]),
      (GroupKey ''2_0'',
         [(''crop'', Single ''2_0.jpg''), (''license'', Single ''LICENSE'')]),
      (GroupKey ''misc'', [(''note'', Single ''misc.note'')])]"

section \<open>Properties of \<open>add_if_matches\<close> and of the loops of \<open>find_by_tag\<close>\<close>

lemma id_key_neq [simp]: "v \<noteq> w \<Longrightarrow> (m(a \<mapsto> v) = n(a \<mapsto> w)) = False"
  by (auto dest: map_upd_eqD1)

lemma add_if_matches_tag: "add_if_matches c f = Inr (c', b) \<Longrightarrow> tag c' = tag c"
  by (auto simp: add_if_matches_def split: option.splits if_splits entry.splits)

lemma add_if_matches_flag: "add_if_matches c f = Inr (c', b) \<Longrightarrow> b = matches (tag c) f"
  by (auto simp: add_if_matches_def matches_def split: option.splits if_splits entry.splits)

lemma add_if_matches_no_match: "\<not> matches (tag c) f \<Longrightarrow> add_if_matches c f = Inr (c, False)"
  by (auto simp: add_if_matches_def matches_def)

lemma held_update_new:
  "map_of al k = None \<Longrightarrow> held (AList.update k v al) = entry_paths v \<union> held al"
  unfolding held_def by (induction al) (auto split: if_splits)

lemma held_update_append:
  "map_of al k = Some (Multiple ps) \<Longrightarrow> held (AList.update k (Multiple (ps @ [f])) al) = insert f (held al)"
  unfolding held_def by (induction al) (auto split: if_splits)

lemma add_if_matches_files:
  assumes "add_if_matches c f = Inr (c', True)"
  obtains k where "call (parser (tag c)) f = Some k" "map_of (files c) k = None"
      "files c' = AList.update k (if allow_multiple (tag c) then Multiple [f] else Single f) (files c)"
    | k ps where "call (parser (tag c)) f = Some k" "map_of (files c) k = Some (Multiple ps)"
      "allow_multiple (tag c)" "files c' = AList.update k (Multiple (ps @ [f])) (files c)"
  using assms unfolding add_if_matches_def
  by (auto split: option.splits if_splits entry.splits)

lemma add_if_matches_paths:
  assumes "add_if_matches c f = Inr (c', True)"
  shows "paths_of c' = insert f (paths_of c)"
  using assms
proof (cases rule: add_if_matches_files)
  case (1 k)
  then show ?thesis by (simp add: paths_of_def held_update_new)
next
  case (2 k ps)
  then show ?thesis by (simp add: paths_of_def held_update_append)
qed

lemma offer_length: "offer cs f = Inr cs' \<Longrightarrow> map tag cs' = map tag cs"
  by (induction cs arbitrary: cs') (auto split: sum.splits if_splits prod.splits dest: add_if_matches_tag)


lemma all_less_Suc_Cons: "(\<forall>j<Suc n. P ((x # xs) ! j)) \<longleftrightarrow> P x \<and> (\<forall>j<n. P (xs ! j))"
proof
  assume a: "\<forall>j<Suc n. P ((x # xs) ! j)"
  then have "P ((x # xs) ! 0)" by blast
  moreover have "P (xs ! j)" if "j < n" for j
    using a that by (metis Suc_less_eq nth_Cons_Suc)
  ultimately show "P x \<and> (\<forall>j<n. P (xs ! j))" by simp
next
  assume a: "P x \<and> (\<forall>j<n. P (xs ! j))"
  show "\<forall>j<Suc n. P ((x # xs) ! j)"
  proof (intro allI impI)
    fix j assume "j < Suc n"
    with a show "P ((x # xs) ! j)" by (cases j) auto
  qed
qed

lemma offer_nth:
  "offer cs f = Inr cs' \<Longrightarrow> i < length cs \<Longrightarrow>
   (if matches (tag (cs ! i)) f \<and> (\<forall>j<i. \<not> matches (tag (cs ! j)) f)
    then add_if_matches (cs ! i) f = Inr (cs' ! i, True)
    else cs' ! i = cs ! i)"
proof (induction cs arbitrary: cs' i)
  case Nil
  then show ?case by simp
next
  case (Cons c cs)
  from Cons.prems(1) obtain c' added where a: "add_if_matches c f = Inr (c', added)"
    by (auto split: sum.splits)
  have fl: "added = matches (tag c) f" using a by (rule add_if_matches_flag)
  show ?case
  proof (cases added)
    case True
    with a Cons.prems have "cs' = c' # cs" by simp
    with True fl a show ?thesis by (cases i) auto
  next
    case False
    with fl a have cc: "c' = c" by (simp add: add_if_matches_no_match)
    from False a Cons.prems(1) obtain cs'' where o: "offer cs f = Inr cs''" and e: "cs' = c # cs''"
      by (auto simp: cc split: sum.splits)
    show ?thesis
    proof (cases i)
      case 0
      with e False fl show ?thesis by simp
    next
      case (Suc n)
      with Cons.prems have "n < length cs" by simp
      note ih = Cons.IH[OF o this]
      have eq: "(\<forall>j<Suc n. \<not> matches (tag ((c # cs) ! j)) f) =
                (\<not> matches (tag c) f \<and> (\<forall>j<n. \<not> matches (tag (cs ! j)) f))"
        by (rule all_less_Suc_Cons[of n "\<lambda>d. \<not> matches (tag d) f" c cs])
      have nc: "\<not> matches (tag c) f" using False fl by simp
      show ?thesis unfolding Suc e eq nth_Cons_Suc using ih nc by simp
    qed
  qed
qed

lemma offer_no_match: "\<forall>c\<in>set cs. \<not> matches (tag c) f \<Longrightarrow> offer cs f = Inr cs"
  by (induction cs) (auto simp: add_if_matches_no_match)

lemma route_nth:
  "route cs fs = Inr cs' \<Longrightarrow> i < length cs \<Longrightarrow>
   map tag cs' = map tag cs \<and>
   paths_of (cs' ! i) = paths_of (cs ! i) \<union>
     {f \<in> set fs. matches (tag (cs ! i)) f \<and> (\<forall>j<i. \<not> matches (tag (cs ! j)) f)}"
proof (induction fs arbitrary: cs)
  case Nil
  then show ?case by simp
next
  case (Cons f fs)
  from Cons.prems(1) obtain cs1 where o: "offer cs f = Inr cs1" and r: "route cs1 fs = Inr cs'"
    by (auto split: sum.splits)
  have t: "map tag cs1 = map tag cs" using o by (rule offer_length)
  then have len: "length cs1 = length cs" by (metis length_map)
  have tn: "\<And>j. j < length cs \<Longrightarrow> tag (cs1 ! j) = tag (cs ! j)"
    using t len by (metis nth_map)
  have i1: "i < length cs1" using Cons.prems(2) len by simp
  have step: "paths_of (cs1 ! i) = paths_of (cs ! i) \<union>
     (if matches (tag (cs ! i)) f \<and> (\<forall>j<i. \<not> matches (tag (cs ! j)) f) then {f} else {})"
    using offer_nth[OF o Cons.prems(2)] by (auto simp: add_if_matches_paths)
  have same: "(\<forall>j<i. \<not> matches (tag (cs1 ! j)) g) = (\<forall>j<i. \<not> matches (tag (cs ! j)) g)" for g
    using tn Cons.prems(2) by auto
  from Cons.IH[OF r i1] have
    "map tag cs' = map tag cs1" and
    "paths_of (cs' ! i) = paths_of (cs1 ! i) \<union>
       {g \<in> set fs. matches (tag (cs1 ! i)) g \<and> (\<forall>j<i. \<not> matches (tag (cs1 ! j)) g)}"
    by simp_all
  with t step same tn[OF Cons.prems(2)] show ?case by auto
qed

lemma route_drop_unmatched:
  "map tag cs = tags \<Longrightarrow>
   route cs (filter (\<lambda>f. \<exists>t\<in>set tags. matches t f) fs) = route cs fs"
proof (induction fs arbitrary: cs)
  case Nil
  then show ?case by simp
next
  case (Cons f fs)
  show ?case
  proof (cases "\<exists>t\<in>set tags. matches t f")
    case True
    have "route cs1 (filter (\<lambda>f. \<exists>t\<in>set tags. matches t f) fs) = route cs1 fs"
      if "offer cs f = Inr cs1" for cs1
      using Cons.IH[of cs1] offer_length[OF that] Cons.prems by simp
    with True show ?thesis by (auto split: sum.splits)
  next
    case False
    with Cons.prems have "\<forall>c\<in>set cs. \<not> matches (tag c) f" by auto
    then have "offer cs f = Inr cs" by (rule offer_no_match)
    with False Cons show ?thesis by simp
  qed
qed

lemma route_tags: "route cs fs = Inr cs' \<Longrightarrow> map tag cs' = map tag cs"
proof (induction fs arbitrary: cs)
  case Nil
  then show ?case by simp
next
  case (Cons f fs)
  from Cons.prems obtain cs1 where o: "offer cs f = Inr cs1" and r: "route cs1 fs = Inr cs'"
    by (auto split: sum.splits)
  from Cons.IH[OF r] offer_length[OF o] show ?case by simp
qed

lemma route_untouched:
  "route cs fs = Inr cs' \<Longrightarrow> i < length cs \<Longrightarrow>
   \<forall>f\<in>set fs. \<not> matches (tag (cs ! i)) f \<Longrightarrow> cs' ! i = cs ! i"
proof (induction fs arbitrary: cs)
  case Nil
  then show ?case by simp
next
  case (Cons f fs)
  from Cons.prems(1) obtain cs1 where o: "offer cs f = Inr cs1" and r: "route cs1 fs = Inr cs'"
    by (auto split: sum.splits)
  have t: "map tag cs1 = map tag cs" using o by (rule offer_length)
  then have len: "length cs1 = length cs" by (metis length_map)
  have nm: "\<not> matches (tag (cs ! i)) f" using Cons.prems(3) by simp
  have s1: "cs1 ! i = cs ! i" using offer_nth[OF o Cons.prems(2)] nm by simp
  have "cs' ! i = cs1 ! i"
    using Cons.IH[OF r] len Cons.prems(2,3) s1 by simp
  with s1 show ?case by simp
qed

lemma example_find_by_tag: "find_by_tag example_files example_tags = Inr example_collections"
  by (simp add: find_by_tag_def example_files_def example_tags_def example_collections_def
      new_collection_def add_if_matches_def)

section \<open>Routing\<close>

text \<open>
  Claim C2. Whenever \<open>find_by_tag\<close> returns, a file is held by the collection at
  position \<open>i\<close> exactly when it is one of the input files, the parser of tag \<open>i\<close>
  matches it and no parser of an earlier tag does: each file is in at most one collection,
  that of the first matching tag in list order. Files that match no tag change nothing:
  leaving them out of the input gives the same outcome, so they are in no collection and
  raise no error.
\<close>

theorem find_by_tag_routing:
  "find_by_tag (filter (\<lambda>f. \<exists>t\<in>set tags. call (parser t) f \<noteq> None) fs) tags = find_by_tag fs tags \<and>
   (find_by_tag fs tags = Inr cs \<longrightarrow>
      length cs = length tags \<and>
      (\<forall>i<length tags. \<forall>f.
         f \<in> paths_of (cs ! i) \<longleftrightarrow>
           f \<in> set fs \<and> call (parser (tags ! i)) f \<noteq> None \<and> (\<forall>j<i. call (parser (tags ! j)) f = None)) \<and>
      (\<forall>i<length tags. \<forall>j<length tags. \<forall>f.
         f \<in> paths_of (cs ! i) \<and> f \<in> paths_of (cs ! j) \<longrightarrow> i = j))"
proof (intro conjI impI)
  show "find_by_tag (filter (\<lambda>f. \<exists>t\<in>set tags. call (parser t) f \<noteq> None) fs) tags = find_by_tag fs tags"
    using route_drop_unmatched[of "map new_collection tags" tags fs]
    by (simp add: find_by_tag_def matches_def new_collection_def comp_def)
next
  assume r: "find_by_tag fs tags = Inr cs"
  then have r': "route (map new_collection tags) fs = Inr cs" by (simp add: find_by_tag_def)
  have t: "map tag cs = tags"
    using route_tags[OF r'] by (simp add: new_collection_def comp_def)
  then show len: "length cs = length tags" by (metis length_map)
  show iff: "\<forall>i<length tags. \<forall>f.
         f \<in> paths_of (cs ! i) \<longleftrightarrow>
           f \<in> set fs \<and> call (parser (tags ! i)) f \<noteq> None \<and> (\<forall>j<i. call (parser (tags ! j)) f = None)"
  proof (intro allI impI)
    fix i f assume i: "i < length tags"
    then have "paths_of (cs ! i) = paths_of (map new_collection tags ! i) \<union>
       {f \<in> set fs. matches (tag (map new_collection tags ! i)) f \<and>
          (\<forall>j<i. \<not> matches (tag (map new_collection tags ! j)) f)}"
      using route_nth[OF r', of i] by simp
    with i show "f \<in> paths_of (cs ! i) \<longleftrightarrow>
           f \<in> set fs \<and> call (parser (tags ! i)) f \<noteq> None \<and> (\<forall>j<i. call (parser (tags ! j)) f = None)"
      by (auto simp: new_collection_def paths_of_def held_def matches_def)
  qed
  show "\<forall>i<length tags. \<forall>j<length tags. \<forall>f.
         f \<in> paths_of (cs ! i) \<and> f \<in> paths_of (cs ! j) \<longrightarrow> i = j"
  proof (intro allI impI)
    fix i j f assume i: "i < length tags" and j: "j < length tags"
      and m: "f \<in> paths_of (cs ! i) \<and> f \<in> paths_of (cs ! j)"
    from iff i m have a: "call (parser (tags ! i)) f \<noteq> None" "\<forall>k<i. call (parser (tags ! k)) f = None" by auto
    from iff j m have b: "call (parser (tags ! j)) f \<noteq> None" "\<forall>k<j. call (parser (tags ! k)) f = None" by auto
    from a b show "i = j" by (meson linorder_neqE_nat)
  qed
qed

theorem find_by_tag_routing_witness:
  "find_by_tag example_files example_tags = Inr example_collections \<and>
   ''1.jpg'' \<in> paths_of (example_collections ! 0) \<and>
   ''1.jpg'' \<notin> paths_of (example_collections ! 1) \<and>
   ''notes.md'' \<notin> paths_of (example_collections ! 0) \<and>
   find_by_tag [''1.jpg'', ''1.txt'', ''2.jpg''] example_tags = Inr example_collections"
proof -
  note t = find_by_tag_routing[of example_tags example_files example_collections]
  have len: "length example_tags = 3" by (simp add: example_tags_def)
  have flt: "filter (\<lambda>f. \<exists>t\<in>set example_tags. call (parser t) f \<noteq> None) example_files = [''1.jpg'', ''1.txt'', ''2.jpg'']"
    by (simp add: example_tags_def example_files_def)
  from t example_find_by_tag flt have a: "find_by_tag [''1.jpg'', ''1.txt'', ''2.jpg''] example_tags = Inr example_collections"
    by simp
  from t example_find_by_tag have iff: "\<forall>i<length example_tags. \<forall>f.
         f \<in> paths_of (example_collections ! i) \<longleftrightarrow>
           f \<in> set example_files \<and> call (parser (example_tags ! i)) f \<noteq> None \<and> (\<forall>j<i. call (parser (example_tags ! j)) f = None)"
    by blast
  have b: "''1.jpg'' \<in> paths_of (example_collections ! 0)"
    using iff[rule_format, of 0 "''1.jpg''"] by (simp add: example_tags_def example_files_def)
  have c: "''1.jpg'' \<notin> paths_of (example_collections ! 1)"
    using iff[rule_format, of 1 "''1.jpg''"] by (simp add: example_tags_def example_files_def)
  have d: "''notes.md'' \<notin> paths_of (example_collections ! 0)"
    using iff[rule_format, of 0 "''notes.md''"] by (simp add: example_tags_def example_files_def)
  from example_find_by_tag a b c d show ?thesis by simp
qed

text \<open>
  Claim C10. Whenever \<open>find_by_tag\<close> returns, the list has one collection per input
  tag, in the order of \<open>tags\<close>, and the collection of a tag whose parser matches none
  of the files is there with an empty \<open>files\<close>.
\<close>

theorem find_by_tag_one_collection_per_tag:
  "find_by_tag fs tags = Inr cs \<Longrightarrow>
     length cs = length tags \<and> map tag cs = tags \<and>
     (\<forall>i<length tags. (\<forall>f\<in>set fs. call (parser (tags ! i)) f = None) \<longrightarrow> files (cs ! i) = [])"
proof -
  assume r: "find_by_tag fs tags = Inr cs"
  then have r': "route (map new_collection tags) fs = Inr cs" by (simp add: find_by_tag_def)
  have t: "map tag cs = tags"
    using route_tags[OF r'] by (simp add: new_collection_def comp_def)
  then have len: "length cs = length tags" by (metis length_map)
  have "files (cs ! i) = []" if i: "i < length tags" and n: "\<forall>f\<in>set fs. call (parser (tags ! i)) f = None" for i
  proof -
    have "cs ! i = map new_collection tags ! i"
      using route_untouched[OF r', of i] i n by (simp add: matches_def new_collection_def)
    with i show ?thesis by (simp add: new_collection_def)
  qed
  with t len show ?thesis by blast
qed

theorem find_by_tag_one_collection_per_tag_witness:
  "find_by_tag example_files example_tags = Inr example_collections \<and>
   map tag example_collections = example_tags \<and>
   files (example_collections ! 2) = []"
proof -
  note t = find_by_tag_one_collection_per_tag[OF example_find_by_tag]
  have "\<forall>f\<in>set example_files. call (parser (example_tags ! 2)) f = None"
    by (simp add: example_files_def example_tags_def)
  moreover have "(2::nat) < length example_tags" by (simp add: example_tags_def)
  ultimately have "files (example_collections ! 2) = []" using t by blast
  with t example_find_by_tag show ?thesis by blast
qed

section \<open>Collections of a tag with \<open>allow_multiple\<close>\<close>

lemma add_if_matches_multiple_step:
  assumes m: "allow_multiple (tag c)" and l: "lists_only c"
  shows "\<exists>c'. add_if_matches c f = Inr (c', call (parser (tag c)) f \<noteq> None) \<and>
           tag c' = tag c \<and> lists_only c' \<and>
           (\<forall>k. map_of (files c') k =
              (if call (parser (tag c)) f = Some k then Some (Multiple (stored c k @ [f]))
               else map_of (files c) k))"
proof (cases "call (parser (tag c)) f")
  case None
  then show ?thesis using l by (simp add: add_if_matches_def)
next
  case (Some k)
  show ?thesis
  proof (cases "map_of (files c) k")
    case None
    with Some m l show ?thesis
      by (auto simp: add_if_matches_def lists_only_def stored_def update_conv')
  next
    case (Some e)
    with l obtain ps where e: "e = Multiple ps" by (cases e) (auto simp: lists_only_def)
    with Some \<open>call (parser (tag c)) f = Some k\<close> m l show ?thesis
      by (auto simp: add_if_matches_def lists_only_def stored_def update_conv')
  qed
qed

lemma add_all_multiple:
  assumes m: "allow_multiple (tag c)" and l: "lists_only c"
  shows "\<exists>c'. add_all c fs = Inr c' \<and> tag c' = tag c \<and> lists_only c' \<and>
           (\<forall>k. stored c' k = stored c k @ filter (\<lambda>f. call (parser (tag c)) f = Some k) fs) \<and>
           (\<forall>k. (map_of (files c') k = None) =
                 (map_of (files c) k = None \<and> (\<forall>f\<in>set fs. call (parser (tag c)) f \<noteq> Some k)))"
  using m l
proof (induction fs arbitrary: c)
  case Nil
  then show ?case by simp
next
  case (Cons f fs)
  from add_if_matches_multiple_step[OF Cons.prems, of f] obtain c1 where
    a: "add_if_matches c f = Inr (c1, call (parser (tag c)) f \<noteq> None)" and
    t: "tag c1 = tag c" and l1: "lists_only c1" and
    f1: "\<forall>k. map_of (files c1) k =
              (if call (parser (tag c)) f = Some k then Some (Multiple (stored c k @ [f]))
               else map_of (files c) k)"
    by blast
  have m1: "allow_multiple (tag c1)" using t Cons.prems by simp
  from Cons.IH[OF m1 l1] obtain c' where
    r: "add_all c1 fs = Inr c'" and t': "tag c' = tag c1" and l': "lists_only c'" and
    s': "\<forall>k. stored c' k = stored c1 k @ filter (\<lambda>f. call (parser (tag c1)) f = Some k) fs" and
    n': "\<forall>k. (map_of (files c') k = None) =
                 (map_of (files c1) k = None \<and> (\<forall>f\<in>set fs. call (parser (tag c1)) f \<noteq> Some k))"
    by blast
  have s1: "stored c1 k = stored c k @ (if call (parser (tag c)) f = Some k then [f] else [])" for k
    using f1 by (simp add: stored_def)
  have "add_all c (f # fs) = Inr c'" using a r by simp
  moreover have "tag c' = tag c" using t t' by simp
  moreover have "\<forall>k. stored c' k = stored c k @ filter (\<lambda>f. call (parser (tag c)) f = Some k) (f # fs)"
    using s' s1 t by simp
  moreover have "\<forall>k. (map_of (files c') k = None) =
                 (map_of (files c) k = None \<and> (\<forall>g\<in>set (f # fs). call (parser (tag c)) g \<noteq> Some k))"
    using n' f1 t by auto
  ultimately show ?case using l' by blast
qed

text \<open>
  Claim C9. For a tag with \<open>allow_multiple\<close>: a call of \<open>add_if_matches\<close> on a collection
  that holds lists never raises; it returns whether the parser matched, appends the file
  to the list at its key (a new list when the key was absent) and leaves every other key
  alone. Starting from the empty collection, any sequence of calls returns, and the list
  at each key is the sequence of the matching files in the order they were added.
\<close>

theorem add_if_matches_allow_multiple:
  assumes "allow_multiple t"
  shows "(\<forall>c f. tag c = t \<and> lists_only c \<longrightarrow>
            (\<exists>c'. add_if_matches c f = Inr (c', call (parser t) f \<noteq> None) \<and> tag c' = t \<and> lists_only c' \<and>
               (\<forall>k. map_of (files c') k =
                  (if call (parser t) f = Some k then Some (Multiple (stored c k @ [f]))
                   else map_of (files c) k)))) \<and>
         (\<forall>fs. \<exists>c'. add_all (new_collection t) fs = Inr c' \<and>
            (\<forall>k. map_of (files c') k =
               (if \<exists>f\<in>set fs. call (parser t) f = Some k
                then Some (Multiple (filter (\<lambda>f. call (parser t) f = Some k) fs))
                else None)))"
proof (intro conjI allI impI)
  fix c f assume "tag c = t \<and> lists_only c"
  with assms add_if_matches_multiple_step[of c f]
  show "\<exists>c'. add_if_matches c f = Inr (c', call (parser t) f \<noteq> None) \<and> tag c' = t \<and> lists_only c' \<and>
               (\<forall>k. map_of (files c') k =
                  (if call (parser t) f = Some k then Some (Multiple (stored c k @ [f]))
                   else map_of (files c) k))"
    by auto
next
  fix fs
  have m: "allow_multiple (tag (new_collection t))" using assms by (simp add: new_collection_def)
  have l: "lists_only (new_collection t)" by (simp add: new_collection_def lists_only_def)
  from add_all_multiple[OF m l, of fs] obtain c' where
    r: "add_all (new_collection t) fs = Inr c'" and l': "lists_only c'" and
    s: "\<forall>k. stored c' k = stored (new_collection t) k @ filter (\<lambda>f. call (parser (tag (new_collection t))) f = Some k) fs" and
    n: "\<forall>k. (map_of (files c') k = None) =
                 (map_of (files (new_collection t)) k = None \<and> (\<forall>f\<in>set fs. call (parser (tag (new_collection t))) f \<noteq> Some k))"
    by blast
  have "map_of (files c') k =
               (if \<exists>f\<in>set fs. call (parser t) f = Some k
                then Some (Multiple (filter (\<lambda>f. call (parser t) f = Some k) fs))
                else None)" for k
  proof (cases "map_of (files c') k")
    case None
    with n show ?thesis by (simp add: new_collection_def)
  next
    case (Some e)
    with l' obtain ps where e: "e = Multiple ps" by (cases e) (auto simp: lists_only_def)
    with Some have "stored c' k = ps" by (simp add: stored_def)
    with s have "ps = filter (\<lambda>f. call (parser t) f = Some k) fs"
      by (simp add: new_collection_def stored_def)
    moreover have "\<exists>f\<in>set fs. call (parser t) f = Some k"
    proof (rule ccontr)
      assume "\<not> (\<exists>f\<in>set fs. call (parser t) f = Some k)"
      then have "map_of (files c') k = None" using n by (simp add: new_collection_def)
      with Some show False by simp
    qed
    ultimately show ?thesis using Some e by simp
  qed
  with r show "\<exists>c'. add_all (new_collection t) fs = Inr c' \<and>
            (\<forall>k. map_of (files c') k =
               (if \<exists>f\<in>set fs. call (parser t) f = Some k
                then Some (Multiple (filter (\<lambda>f. call (parser t) f = Some k) fs))
                else None))"
    by blast
qed

theorem add_if_matches_allow_multiple_witness:
  "allow_multiple (example_photo\<lparr>allow_multiple := True\<rparr>) \<and>
   add_all (new_collection (example_photo\<lparr>allow_multiple := True\<rparr>)) [''a/1.jpg'', ''notes.md'', ''a/2.jpg'', ''b/1.jpg'']
     = Inr \<lparr>tag = example_photo\<lparr>allow_multiple := True\<rparr>,
             files = [(MultiPartKey [''id'' \<mapsto> ''1''], Multiple [''a/1.jpg'', ''b/1.jpg'']),
                      (MultiPartKey [''id'' \<mapsto> ''2''], Multiple [''a/2.jpg''])]\<rparr> \<and>
   (\<exists>c'. add_all (new_collection (example_photo\<lparr>allow_multiple := True\<rparr>)) [''a/1.jpg'', ''notes.md'', ''a/2.jpg'', ''b/1.jpg''] = Inr c' \<and>
      map_of (files c') (MultiPartKey [''id'' \<mapsto> ''1'']) = Some (Multiple [''a/1.jpg'', ''b/1.jpg'']))"
proof -
  let ?t = "example_photo\<lparr>allow_multiple := True\<rparr>"
  let ?fs = "[''a/1.jpg'', ''notes.md'', ''a/2.jpg'', ''b/1.jpg'']"
  have h: "allow_multiple ?t" by simp
  have e: "add_all (new_collection ?t) ?fs
     = Inr \<lparr>tag = ?t,
             files = [(MultiPartKey [''id'' \<mapsto> ''1''], Multiple [''a/1.jpg'', ''b/1.jpg'']),
                      (MultiPartKey [''id'' \<mapsto> ''2''], Multiple [''a/2.jpg''])]\<rparr>"
    by (simp add: new_collection_def add_if_matches_def example_photo_def)
  from add_if_matches_allow_multiple[OF h] obtain c' where
    r: "add_all (new_collection ?t) ?fs = Inr c'" and
    l: "\<forall>k. map_of (files c') k =
               (if \<exists>f\<in>set ?fs. call (parser ?t) f = Some k
                then Some (Multiple (filter (\<lambda>f. call (parser ?t) f = Some k) ?fs))
                else None)"
    by blast
  from l have "map_of (files c') (MultiPartKey [''id'' \<mapsto> ''1'']) = Some (Multiple [''a/1.jpg'', ''b/1.jpg''])"
    by (simp add: example_photo_def)
  with h e r show ?thesis by blast
qed

section \<open>Duplicate keys\<close>

text \<open>
  Claim C1. For a tag without \<open>allow_multiple\<close>, a file whose key is already occupied
  makes \<open>add_if_matches\<close> fail. The exception is \<open>ValueError(file)\<close>: it carries the new
  path and nothing else, so the tag, the key and the stored path are not in it. The
  witness raises the same value from two collections that differ in tag, key and stored
  path.
\<close>

theorem add_if_matches_duplicate_key:
  "\<not> allow_multiple (tag c) \<Longrightarrow> call (parser (tag c)) f = Some k \<Longrightarrow> map_of (files c) k = Some e \<Longrightarrow>
   add_if_matches c f = Inl (ValueError f)"
  by (simp add: add_if_matches_def)

theorem add_if_matches_duplicate_key_witness:
  "add_if_matches \<lparr>tag = example_photo, files = [(MultiPartKey [''id'' \<mapsto> ''1''], Single ''a/1.jpg'')]\<rparr> ''b/1.jpg''
     = Inl (ValueError ''b/1.jpg'') \<and>
   add_if_matches \<lparr>tag = example_scan, files = [(GroupKey ''7'', Single ''old/7.png'')]\<rparr> ''b/1.jpg''
     = Inl (ValueError ''b/1.jpg'') \<and>
   find_by_tag [''a/1.jpg'', ''b/1.jpg''] [example_photo] = Inl (ValueError ''b/1.jpg'')"
proof -
  have a: "add_if_matches \<lparr>tag = example_photo, files = [(MultiPartKey [''id'' \<mapsto> ''1''], Single ''a/1.jpg'')]\<rparr> ''b/1.jpg''
     = Inl (ValueError ''b/1.jpg'')"
    by (rule add_if_matches_duplicate_key[where k = "MultiPartKey [''id'' \<mapsto> ''1'']" and e = "Single ''a/1.jpg''"])
       (simp_all add: example_photo_def)
  have b: "add_if_matches \<lparr>tag = example_scan, files = [(GroupKey ''7'', Single ''old/7.png'')]\<rparr> ''b/1.jpg''
     = Inl (ValueError ''b/1.jpg'')"
    by (rule add_if_matches_duplicate_key[where k = "GroupKey ''7''" and e = "Single ''old/7.png''"])
       (simp_all add: example_scan_def)
  have c: "find_by_tag [''a/1.jpg'', ''b/1.jpg''] [example_photo] = Inl (ValueError ''b/1.jpg'')"
    by (simp add: find_by_tag_def new_collection_def add_if_matches_def example_photo_def)
  from a b c show ?thesis by blast
qed

section \<open>The phases of \<open>group_by_key\<close>\<close>

lemma group_by_key_phases:
  "group_by_key cs fmt =
     (case distribute_all (sort_key n_key_parts (filter is_distributable cs))
             (foldl merge_collection [] (filter is_multi_part cs)) of
        Inl e \<Rightarrow> Inl e
      | Inr gs \<Rightarrow> Inr (foldl merge_collection (format_groups fmt gs) (filter is_single_part cs)))"
  unfolding group_by_key_def sort_collections_by_type_def by (simp only: prod.case)

lemma map_sort_key_eq: "map f (sort_key f xs) = sort (map f xs)"
proof -
  have "sort (map f xs) = map f (sort_key f xs)"
    by (rule properties_for_sort) simp_all
  then show ?thesis by simp
qed

lemma sort_order_permutation:
  assumes "mset cs' = mset cs"
  shows "map n_key_parts (sort_key n_key_parts (filter is_distributable cs')) =
         map n_key_parts (sort_key n_key_parts (filter is_distributable cs))"
proof -
  have "mset (filter is_distributable cs') = mset (filter is_distributable cs)"
    using assms by simp
  then have "image_mset n_key_parts (mset (filter is_distributable cs')) =
             image_mset n_key_parts (mset (filter is_distributable cs))"
    by (rule arg_cong)
  then have "mset (map n_key_parts (filter is_distributable cs')) =
             mset (map n_key_parts (filter is_distributable cs))"
    by (simp only: mset_map)
  then have "sort (map n_key_parts (filter is_distributable cs')) =
             sort (map n_key_parts (filter is_distributable cs))"
    by (intro properties_for_sort) simp_all
  then show ?thesis by (simp only: map_sort_key_eq)
qed

lemma put_lookup:
  "map_of (put k n p gs) = (map_of gs)(k \<mapsto> AList.update n p (case map_of gs k of None \<Rightarrow> [] | Some g \<Rightarrow> g))"
  by (simp add: put_def update_conv')

lemma put_keys: "fst ` set (put k n p gs) = insert k (fst ` set gs)"
  by (simp add: put_def dom_update)

lemma merge_fold_lookup:
  "distinct (map fst fl) \<Longrightarrow>
   map_of (foldl (\<lambda>acc (k, p). put k n p acc) gs fl) k =
     (case map_of fl k of
        None \<Rightarrow> map_of gs k
      | Some p \<Rightarrow> Some (AList.update n p (case map_of gs k of None \<Rightarrow> [] | Some g \<Rightarrow> g)))"
proof (induction fl arbitrary: gs)
  case Nil
  then show ?case by simp
next
  case (Cons a fl)
  obtain k1 p1 where a: "a = (k1, p1)" by (cases a)
  from Cons.prems a have d: "distinct (map fst fl)" and n: "k1 \<notin> fst ` set fl" by auto
  from n have none: "map_of fl k1 = None" by (simp add: map_of_eq_None_iff)
  show ?case
  proof (cases "k = k1")
    case True
    with Cons.IH[OF d, of "put k1 n p1 gs"] a none show ?thesis
      by (simp add: put_lookup split: option.splits)
  next
    case False
    with Cons.IH[OF d, of "put k1 n p1 gs"] a show ?thesis
      by (simp add: put_lookup split: option.splits)
  qed
qed

lemma merge_fold_keys:
  "fst ` set (foldl (\<lambda>acc (k, p). put k n p acc) gs fl) = fst ` set gs \<union> fst ` set fl"
proof (induction fl arbitrary: gs)
  case Nil
  then show ?case by simp
next
  case (Cons a fl)
  obtain k p where a: "a = (k, p)" by (cases a)
  have "fst ` set (foldl (\<lambda>acc (k, p). put k n p acc) gs (a # fl)) =
        fst ` set (put k n p gs) \<union> fst ` set fl"
    using Cons.IH[of "put k n p gs"] a by simp
  also have "\<dots> = insert k (fst ` set gs) \<union> fst ` set fl"
    by (simp only: put_keys)
  finally show ?case using a by auto
qed

lemma merge_collection_keys:
  "fst ` set (merge_collection gs c) = fst ` set gs \<union> fst ` set (files c)"
  by (simp add: merge_collection_def merge_fold_keys)

lemma merge_collections_keys:
  "fst ` set (foldl merge_collection gs cs) = fst ` set gs \<union> (\<Union>c\<in>set cs. fst ` set (files c))"
  by (induction cs arbitrary: gs) (auto simp: merge_collection_keys)

lemma format_fold_lookup:
  "map_of (foldl (\<lambda>acc (k, g). AList.update (fmt k) g acc) acc gs) k' =
     (case map_of (rev (map (\<lambda>(k, g). (fmt k, g)) gs)) k' of None \<Rightarrow> map_of acc k' | Some g \<Rightarrow> Some g)"
proof (induction gs arbitrary: acc)
  case Nil
  then show ?case by simp
next
  case (Cons a gs)
  obtain k g where a: "a = (k, g)" by (cases a)
  show ?case
    using Cons.IH[of "AList.update (fmt k) g acc"] a
    by (simp add: update_conv' map_add_def split: option.splits)
qed

lemma format_fold_keys:
  "fst ` set (foldl (\<lambda>acc (k, g). AList.update (fmt k) g acc) acc gs) = fst ` set acc \<union> fmt ` fst ` set gs"
proof (induction gs arbitrary: acc)
  case Nil
  then show ?case by simp
next
  case (Cons a gs)
  obtain k g where a: "a = (k, g)" by (cases a)
  have "fst ` set (foldl (\<lambda>acc (k, g). AList.update (fmt k) g acc) acc (a # gs)) =
        fst ` set (AList.update (fmt k) g acc) \<union> fmt ` fst ` set gs"
    using Cons.IH[of "AList.update (fmt k) g acc"] a by simp
  also have "\<dots> = ({fmt k} \<union> fst ` set acc) \<union> fmt ` fst ` set gs"
    by (simp only: dom_update)
  finally show ?case using a by auto
qed

lemma distribute_returns:
  "\<forall>kg\<in>set gs. \<exists>m. fst kg = MultiPartKey m \<Longrightarrow> \<exists>gs'. distribute c gs = Inr gs'"
proof (induction gs)
  case Nil
  then show ?case by simp
next
  case (Cons a gs)
  then obtain m g where a: "a = (MultiPartKey m, g)" by (cases a) auto
  from Cons obtain gs' where "distribute c gs = Inr gs'" by auto
  with a show ?case by (simp add: Let_def)
qed

lemma distribute_nth:
  "distribute c gs = Inr gs' \<Longrightarrow>
   map fst gs' = map fst gs \<and>
   (\<forall>i<length gs. \<forall>m. fst (gs ! i) = MultiPartKey m \<longrightarrow>
      snd (gs' ! i) =
        (case map_of (files c) (join_key m (distribute_over (tag c))) of
           None \<Rightarrow> snd (gs ! i)
         | Some p \<Rightarrow> AList.update (name (tag c)) p (snd (gs ! i))))"
proof (induction c gs arbitrary: gs' rule: distribute.induct)
  case (1 c)
  then show ?case by simp
next
  case (2 c s g rest)
  then show ?case by simp
next
  case (3 c m g rest)
  from "3.prems" obtain rest' where r: "distribute c rest = Inr rest'"
    and e: "gs' = (MultiPartKey m,
              (case map_of (files c) (join_key m (distribute_over (tag c))) of
                 None \<Rightarrow> g | Some p \<Rightarrow> AList.update (name (tag c)) p g)) # rest'"
    by (auto simp: Let_def split: sum.splits)
  from "3.IH"[OF refl r] have ih1: "map fst rest' = map fst rest" and
    ih2: "\<forall>i<length rest. \<forall>m. fst (rest ! i) = MultiPartKey m \<longrightarrow>
      snd (rest' ! i) =
        (case map_of (files c) (join_key m (distribute_over (tag c))) of
           None \<Rightarrow> snd (rest ! i)
         | Some p \<Rightarrow> AList.update (name (tag c)) p (snd (rest ! i)))"
    by simp_all
  show ?case
  proof (intro conjI allI impI)
    show "map fst gs' = map fst ((MultiPartKey m, g) # rest)" using e ih1 by simp
  next
    fix i m' assume i: "i < length ((MultiPartKey m, g) # rest)"
      and k: "fst (((MultiPartKey m, g) # rest) ! i) = MultiPartKey m'"
    show "snd (gs' ! i) =
        (case map_of (files c) (join_key m' (distribute_over (tag c))) of
           None \<Rightarrow> snd (((MultiPartKey m, g) # rest) ! i)
         | Some p \<Rightarrow> AList.update (name (tag c)) p (snd (((MultiPartKey m, g) # rest) ! i)))"
    proof (cases i)
      case 0
      with k e show ?thesis by (simp split: option.splits)
    next
      case (Suc j)
      with i k ih2 e show ?thesis by (simp split: option.splits)
    qed
  qed
qed

section \<open>The example, phase by phase\<close>

lemma key_neq_at: "m a \<noteq> n a \<Longrightarrow> (m = n) = False"
  by auto

lemma example_phase1:
  "foldl merge_collection [] [example_crops] =
     [(MultiPartKey [''id'' \<mapsto> ''1'', ''crop_index'' \<mapsto> ''0''], [(''crop'', Single ''1_0.jpg'')]),
      (MultiPartKey [''id'' \<mapsto> ''1'', ''crop_index'' \<mapsto> ''1''], [(''crop'', Single ''1_1.jpg'')]),
      (MultiPartKey [''id'' \<mapsto> ''2'', ''crop_index'' \<mapsto> ''0''], [(''crop'', Single ''2_0.jpg'')])]"
  by (simp add: merge_collection_def example_crops_def put_def
      key_neq_at[where a = "''id''"] key_neq_at[where a = "''crop_index''"])

lemma example_join_keys:
  "join_key [''id'' \<mapsto> ''1'', ''crop_index'' \<mapsto> ''0''] [''crop_index''] = MultiPartKey [''id'' \<mapsto> ''1'']"
  "join_key [''id'' \<mapsto> ''1'', ''crop_index'' \<mapsto> ''1''] [''crop_index''] = MultiPartKey [''id'' \<mapsto> ''1'']"
  "join_key [''id'' \<mapsto> ''2'', ''crop_index'' \<mapsto> ''0''] [''crop_index''] = MultiPartKey [''id'' \<mapsto> ''2'']"
  "join_key [''id'' \<mapsto> v, ''crop_index'' \<mapsto> w] [''id'', ''crop_index''] = MultiPartKey Map.empty"
  by (simp_all add: join_key_def restrict_map_def fun_eq_iff)

lemma example_sorted:
  "sort_collections_by_type example_input =
     ([example_crops], [example_licenses, example_captions], [example_notes])"
  by (simp add: sort_collections_by_type_def example_input_def is_multi_part_def is_distributable_def
      is_single_part_def n_key_parts_def no_parser_def
      example_crops_def example_captions_def example_licenses_def example_notes_def)

lemma example_merge1: "merge_collection [] example_crops = example_groups1"
  using example_phase1 by (simp add: example_groups1_def)

lemma example_distribute1: "distribute example_licenses example_groups1 = Inr example_groups2"
  by (simp add: example_groups1_def example_groups2_def example_licenses_def distribute_over_def
      example_join_keys)

lemma example_distribute2: "distribute example_captions example_groups2 = Inr example_groups3"
  by (simp add: example_groups2_def example_groups3_def example_captions_def distribute_over_def
      example_join_keys)

lemma example_format: "format_groups example_key_formatter example_groups3 = example_formatted"
  by (simp add: format_groups_def example_groups3_def example_formatted_def example_key_formatter_def)

lemma example_merge2: "merge_collection example_formatted example_notes = example_result"
  by (simp add: merge_collection_def example_formatted_def example_notes_def example_result_def put_def)

lemma example_group_by_key: "group_by_key example_input example_key_formatter = Inr example_result"
  by (simp add: group_by_key_def example_sorted example_merge1 example_distribute1 example_distribute2
      example_format example_merge2)

section \<open>Order of the distributable collections\<close>

text \<open>
  Claim C4. \<open>group_by_key\<close> hands the distributable collections to the join in the
  order \<open>_sort_collections_by_type\<close> gives them: the distributable collections of the
  input, each once, in ascending order of the number of key parts of their parser. The
  sequence of key-part counts processed is the same for every reordering of the input.
\<close>

theorem group_by_key_distributable_order:
  "\<exists>mp ds sp.
     sort_collections_by_type cs = (mp, ds, sp) \<and>
     sorted (map n_key_parts ds) \<and>
     mset ds = mset (filter is_distributable cs) \<and>
     group_by_key cs fmt =
       (case distribute_all ds (foldl merge_collection [] mp) of
          Inl e \<Rightarrow> Inl e
        | Inr gs \<Rightarrow> Inr (foldl merge_collection (format_groups fmt gs) sp)) \<and>
     (\<forall>cs'. mset cs' = mset cs \<longrightarrow>
        map n_key_parts (fst (snd (sort_collections_by_type cs'))) = map n_key_parts ds)"
proof -
  let ?mp = "filter is_multi_part cs"
  let ?ds = "sort_key n_key_parts (filter is_distributable cs)"
  let ?sp = "filter is_single_part cs"
  have a: "sort_collections_by_type cs = (?mp, ?ds, ?sp)"
    by (simp only: sort_collections_by_type_def)
  have b: "sorted (map n_key_parts ?ds)"
    by (rule sorted_sort_key)
  have c: "mset ?ds = mset (filter is_distributable cs)"
    by (rule mset_sort)
  have d: "group_by_key cs fmt =
       (case distribute_all ?ds (foldl merge_collection [] ?mp) of
          Inl e \<Rightarrow> Inl e
        | Inr gs \<Rightarrow> Inr (foldl merge_collection (format_groups fmt gs) ?sp))"
    by (rule group_by_key_phases)
  have e: "\<forall>cs'. mset cs' = mset cs \<longrightarrow>
        map n_key_parts (fst (snd (sort_collections_by_type cs'))) = map n_key_parts ?ds"
  proof (intro allI impI)
    fix cs' assume "mset cs' = mset cs"
    from sort_order_permutation[OF this]
    show "map n_key_parts (fst (snd (sort_collections_by_type cs'))) = map n_key_parts ?ds"
      by (simp only: sort_collections_by_type_def fst_conv snd_conv)
  qed
  show ?thesis
    apply (rule exI[of _ ?mp])
    apply (rule exI[of _ ?ds])
    apply (rule exI[of _ ?sp])
    apply (rule conjI[OF a])
    apply (rule conjI[OF b])
    apply (rule conjI[OF c])
    apply (rule conjI[OF d])
    apply (rule e)
    done
qed

theorem group_by_key_distributable_order_witness:
  "sort_collections_by_type example_input =
     ([example_crops], [example_licenses, example_captions], [example_notes]) \<and>
   map n_key_parts [example_licenses, example_captions] = [0, 1] \<and>
   map n_key_parts (fst (snd (sort_collections_by_type (rev example_input)))) = [0, 1] \<and>
   group_by_key example_input example_key_formatter = Inr example_result"
proof -
  from group_by_key_distributable_order[of example_input example_key_formatter]
  obtain mp ds sp where
    s: "sort_collections_by_type example_input = (mp, ds, sp)" and
    p: "\<forall>cs'. mset cs' = mset example_input \<longrightarrow>
          map n_key_parts (fst (snd (sort_collections_by_type cs'))) = map n_key_parts ds"
    by blast
  from s have ds: "ds = [example_licenses, example_captions]" by (simp add: example_sorted)
  have n: "map n_key_parts [example_licenses, example_captions] = [0, 1]"
    by (simp add: n_key_parts_def example_licenses_def example_captions_def no_parser_def)
  have "mset (rev example_input) = mset example_input" by simp
  with p ds n have "map n_key_parts (fst (snd (sort_collections_by_type (rev example_input)))) = [0, 1]"
    by simp
  with n example_sorted example_group_by_key show ?thesis by simp
qed

section \<open>The join of a distributable collection\<close>

lemma phase1_keys:
  assumes "\<forall>c\<in>set mp. \<forall>kp\<in>set (files c). \<exists>m. fst kp = MultiPartKey m"
  shows "\<forall>kg\<in>set (foldl merge_collection [] mp). \<exists>m. fst kg = MultiPartKey m"
proof
  fix kg assume "kg \<in> set (foldl merge_collection [] mp)"
  then have "fst kg \<in> fst ` set (foldl merge_collection [] mp)" by simp
  then have "fst kg \<in> (\<Union>c\<in>set mp. fst ` set (files c))"
    by (simp only: merge_collections_keys) simp
  then obtain c kp where "c \<in> set mp" "kp \<in> set (files c)" "fst kg = fst kp" by auto
  with assms show "\<exists>m. fst kg = MultiPartKey m" by metis
qed

lemma distribute_all_keys: "distribute_all ds gs = Inr gs' \<Longrightarrow> map fst gs' = map fst gs"
proof (induction ds arbitrary: gs)
  case Nil
  then show ?case by simp
next
  case (Cons c ds)
  from Cons.prems obtain gs1 where d: "distribute c gs = Inr gs1" and r: "distribute_all ds gs1 = Inr gs'"
    by (auto split: sum.splits)
  from distribute_nth[OF d] Cons.IH[OF r] show ?case by simp
qed

lemma distribute_all_returns:
  "\<forall>kg\<in>set gs. \<exists>m. fst kg = MultiPartKey m \<Longrightarrow> \<exists>gs'. distribute_all ds gs = Inr gs'"
proof (induction ds arbitrary: gs)
  case Nil
  then show ?case by simp
next
  case (Cons c ds)
  from distribute_returns[OF Cons.prems] obtain gs1 where d: "distribute c gs = Inr gs1" by blast
  from distribute_nth[OF d] have "map fst gs1 = map fst gs" by simp
  then have "fst ` set gs1 = fst ` set gs" by (metis set_map)
  with Cons.prems have "\<forall>kg\<in>set gs1. \<exists>m. fst kg = MultiPartKey m" by (metis imageE imageI)
  from Cons.IH[OF this] d show ?case by simp
qed

lemma distribute_all_lookup:
  assumes "distribute_all ds gs = Inr gs'" "i < length gs" "fst (gs ! i) = MultiPartKey m"
  shows "map_of (snd (gs' ! i)) n =
           foldl (\<lambda>acc c. if name (tag c) = n
                           then (case map_of (files c) (join_key m (distribute_over (tag c))) of
                                   None \<Rightarrow> acc | Some p \<Rightarrow> Some p)
                           else acc)
                 (map_of (snd (gs ! i)) n) ds"
  using assms
proof (induction ds arbitrary: gs)
  case Nil
  then show ?case by simp
next
  case (Cons c ds)
  from Cons.prems(1) obtain gs1 where d: "distribute c gs = Inr gs1" and r: "distribute_all ds gs1 = Inr gs'"
    by (auto split: sum.splits)
  from distribute_nth[OF d] have k: "map fst gs1 = map fst gs" and
    s: "snd (gs1 ! i) =
        (case map_of (files c) (join_key m (distribute_over (tag c))) of
           None \<Rightarrow> snd (gs ! i)
         | Some p \<Rightarrow> AList.update (name (tag c)) p (snd (gs ! i)))"
    using Cons.prems(2,3) by simp_all
  from k have len: "length gs1 = length gs" by (metis length_map)
  from k Cons.prems(2) len have "fst (gs1 ! i) = fst (gs ! i)" by (metis nth_map)
  with Cons.prems(3) have k1: "fst (gs1 ! i) = MultiPartKey m" by simp
  have step: "map_of (snd (gs1 ! i)) n =
      (if name (tag c) = n
       then (case map_of (files c) (join_key m (distribute_over (tag c))) of
               None \<Rightarrow> map_of (snd (gs ! i)) n | Some p \<Rightarrow> Some p)
       else map_of (snd (gs ! i)) n)"
    unfolding s by (simp add: update_conv' split: option.splits)
  from Cons.IH[OF r _ k1] Cons.prems(2) len show ?case by (simp add: step)
qed

lemma join_fold_unique:
  assumes "\<forall>c'\<in>set ds. name (tag c') = name (tag c) \<longrightarrow> c' = c"
  shows "foldl (\<lambda>acc c'. if name (tag c') = name (tag c)
                           then (case map_of (files c') (K c') of None \<Rightarrow> acc | Some p \<Rightarrow> Some p)
                           else acc) acc ds =
         (if c \<in> set ds then (case map_of (files c) (K c) of None \<Rightarrow> acc | Some p \<Rightarrow> Some p) else acc)"
  using assms
proof (induction ds arbitrary: acc)
  case Nil
  then show ?case by simp
next
  case (Cons d ds)
  then show ?case by (auto split: option.splits)
qed

lemma join_fold_other:
  assumes "\<forall>c'\<in>set ds. name (tag c') \<noteq> n"
  shows "foldl (\<lambda>acc c'. if name (tag c') = n
                           then (case map_of (files c') (K c') of None \<Rightarrow> acc | Some p \<Rightarrow> Some p)
                           else acc) acc ds = acc"
  using assms by (induction ds arbitrary: acc) simp_all

lemma put_distinct: "distinct (map fst gs) \<Longrightarrow> distinct (map fst (put k n p gs))"
  by (simp add: put_def distinct_update)

lemma merge_collection_distinct:
  "distinct (map fst gs) \<Longrightarrow> distinct (map fst (merge_collection gs c))"
proof -
  have "distinct (map fst gs) \<Longrightarrow> distinct (map fst (foldl (\<lambda>acc (k, p). put k n p acc) gs fl))" for n fl
    by (induction fl arbitrary: gs) (auto simp: put_distinct)
  then show "distinct (map fst gs) \<Longrightarrow> distinct (map fst (merge_collection gs c))"
    by (simp add: merge_collection_def)
qed

lemma merge_collections_distinct:
  "distinct (map fst gs) \<Longrightarrow> distinct (map fst (foldl merge_collection gs cs))"
  by (induction cs arbitrary: gs) (simp_all add: merge_collection_distinct)

lemma format_groups_lookup:
  assumes "distinct (map fst gs)" "inj_on fmt (fst ` set gs)" "i < length gs"
  shows "map_of (format_groups fmt gs) (fmt (fst (gs ! i))) = Some (snd (gs ! i))"
proof -
  let ?xs = "map (\<lambda>(k, g). (fmt k, g)) gs"
  have m: "map fst ?xs = map fmt (map fst gs)" by (induction gs) auto
  have "distinct (map fmt (map fst gs))"
    using assms(1,2) by (simp only: distinct_map[of fmt "map fst gs"] set_map simp_thms)
  then have d: "distinct (map fst ?xs)" by (simp only: m)
  then have dr: "distinct (map fst (rev ?xs))" by (simp add: rev_map[symmetric])
  from assms(3) have "(fmt (fst (gs ! i)), snd (gs ! i)) \<in> set ?xs"
    by (metis (mono_tags, lifting) case_prod_beta image_eqI nth_mem set_map)
  then have "(fmt (fst (gs ! i)), snd (gs ! i)) \<in> set (rev ?xs)" by simp
  from map_of_is_SomeI[OF dr this] show ?thesis
    by (simp add: format_groups_def format_fold_lookup)
qed

lemma put_other_name:
  "n' \<noteq> n \<Longrightarrow>
   Option.bind (map_of (put k' n' p gs) k) (\<lambda>g. map_of g n) = Option.bind (map_of gs k) (\<lambda>g. map_of g n)"
  by (simp add: put_lookup update_conv' split: option.splits)

lemma merge_collection_other_name:
  assumes "name (tag c) \<noteq> n"
  shows "Option.bind (map_of (merge_collection gs c) k) (\<lambda>g. map_of g n) =
         Option.bind (map_of gs k) (\<lambda>g. map_of g n)"
proof -
  have "Option.bind (map_of (foldl (\<lambda>acc (k, p). put k (name (tag c)) p acc) gs fl) k) (\<lambda>g. map_of g n) =
        Option.bind (map_of gs k) (\<lambda>g. map_of g n)" for fl
    using assms by (induction fl arbitrary: gs) (auto simp: put_other_name)
  then show ?thesis by (simp add: merge_collection_def)
qed

lemma merge_collections_other_name:
  assumes "\<forall>c\<in>set cs. name (tag c) \<noteq> n"
  shows "Option.bind (map_of (foldl merge_collection gs cs) k) (\<lambda>g. map_of g n) =
         Option.bind (map_of gs k) (\<lambda>g. map_of g n)"
  using assms by (induction cs arbitrary: gs) (simp_all add: merge_collection_other_name)

lemma merge_collections_has_key:
  "k \<in> fst ` set gs \<Longrightarrow> \<exists>g. map_of (foldl merge_collection gs cs) k = Some g"
proof -
  assume "k \<in> fst ` set gs"
  then have "k \<in> fst ` set (foldl merge_collection gs cs)" by (simp add: merge_collections_keys)
  then show ?thesis by (metis domD dom_map_of_conv_image_fst)
qed

text \<open>
  Claim C3. \<open>group_by_key\<close> returns whenever the keys of the multi-part collections are
  multi-part keys. Its second phase, the loop over all distributable collections in the
  order of \<open>_sort_collections_by_type\<close>, keeps the keys of the groups built in phase 1.
  For a group with key \<open>m\<close> and a distributable collection whose tag name no other
  distributable collection has: when the collection holds a path at \<open>m\<close> without the part
  names of \<open>distribute_over\<close>, the group has that path under the tag's name after the
  loop; when it holds none, the group has under that name what it had before. A name of
  no distributable tag keeps its entry. When \<open>key_formatter\<close> gives different results on
  different keys of phase 1, the group returned at the formatted key has, under every name
  that is not the name of a single-part tag, the entry the loop left there.
\<close>

theorem group_by_key_join_law:
  assumes keys: "\<forall>c\<in>set cs. is_multi_part c \<longrightarrow> (\<forall>kp\<in>set (files c). \<exists>m. fst kp = MultiPartKey m)"
  shows "\<exists>gs1 gs2 res.
     foldl merge_collection [] (fst (sort_collections_by_type cs)) = gs1 \<and>
     distribute_all (fst (snd (sort_collections_by_type cs))) gs1 = Inr gs2 \<and>
     group_by_key cs fmt = Inr res \<and>
     map fst gs2 = map fst gs1 \<and>
     (\<forall>i<length gs1. \<exists>m. fst (gs1 ! i) = MultiPartKey m \<and>
        (\<forall>c\<in>set cs. is_distributable c \<and>
             (\<forall>c'\<in>set cs. is_distributable c' \<and> name (tag c') = name (tag c) \<longrightarrow> c' = c) \<longrightarrow>
           (\<forall>p. map_of (files c) (MultiPartKey (m |` (- set (distribute_over (tag c))))) = Some p \<longrightarrow>
                map_of (snd (gs2 ! i)) (name (tag c)) = Some p) \<and>
           (map_of (files c) (MultiPartKey (m |` (- set (distribute_over (tag c))))) = None \<longrightarrow>
                map_of (snd (gs2 ! i)) (name (tag c)) = map_of (snd (gs1 ! i)) (name (tag c)))) \<and>
        (\<forall>n. (\<forall>c\<in>set cs. is_distributable c \<longrightarrow> name (tag c) \<noteq> n) \<longrightarrow>
             map_of (snd (gs2 ! i)) n = map_of (snd (gs1 ! i)) n) \<and>
        (inj_on fmt (fst ` set gs1) \<longrightarrow>
           (\<forall>n. (\<forall>c\<in>set cs. is_single_part c \<longrightarrow> name (tag c) \<noteq> n) \<longrightarrow>
              (\<exists>g. map_of res (fmt (MultiPartKey m)) = Some g \<and> map_of g n = map_of (snd (gs2 ! i)) n))))"
proof -
  let ?mp = "filter is_multi_part cs"
  let ?ds = "sort_key n_key_parts (filter is_distributable cs)"
  let ?sp = "filter is_single_part cs"
  let ?gs1 = "foldl merge_collection [] ?mp"
  have sorted: "fst (sort_collections_by_type cs) = ?mp" "fst (snd (sort_collections_by_type cs)) = ?ds"
    by (simp_all add: sort_collections_by_type_def)
  have ds: "set ?ds = {c \<in> set cs. is_distributable c}" by simp
  from keys have "\<forall>c\<in>set ?mp. \<forall>kp\<in>set (files c). \<exists>m. fst kp = MultiPartKey m" by auto
  then have k1: "\<forall>kg\<in>set ?gs1. \<exists>m. fst kg = MultiPartKey m" by (rule phase1_keys)
  from distribute_all_returns[OF k1] obtain gs2 where d: "distribute_all ?ds ?gs1 = Inr gs2" by blast
  let ?res = "foldl merge_collection (format_groups fmt gs2) ?sp"
  have r: "group_by_key cs fmt = Inr ?res" by (simp add: group_by_key_phases d)
  from distribute_all_keys[OF d] have same: "map fst gs2 = map fst ?gs1" .
  have dist1: "distinct (map fst ?gs1)" by (rule merge_collections_distinct) simp
  with same have dist2: "distinct (map fst gs2)" by simp
  from same have len: "length gs2 = length ?gs1" by (metis length_map)
  from same have img: "fst ` set gs2 = fst ` set ?gs1" by (metis set_map)
  have law: "\<exists>m. fst (?gs1 ! i) = MultiPartKey m \<and>
        (\<forall>c\<in>set cs. is_distributable c \<and>
             (\<forall>c'\<in>set cs. is_distributable c' \<and> name (tag c') = name (tag c) \<longrightarrow> c' = c) \<longrightarrow>
           (\<forall>p. map_of (files c) (MultiPartKey (m |` (- set (distribute_over (tag c))))) = Some p \<longrightarrow>
                map_of (snd (gs2 ! i)) (name (tag c)) = Some p) \<and>
           (map_of (files c) (MultiPartKey (m |` (- set (distribute_over (tag c))))) = None \<longrightarrow>
                map_of (snd (gs2 ! i)) (name (tag c)) = map_of (snd (?gs1 ! i)) (name (tag c)))) \<and>
        (\<forall>n. (\<forall>c\<in>set cs. is_distributable c \<longrightarrow> name (tag c) \<noteq> n) \<longrightarrow>
             map_of (snd (gs2 ! i)) n = map_of (snd (?gs1 ! i)) n) \<and>
        (inj_on fmt (fst ` set ?gs1) \<longrightarrow>
           (\<forall>n. (\<forall>c\<in>set cs. is_single_part c \<longrightarrow> name (tag c) \<noteq> n) \<longrightarrow>
              (\<exists>g. map_of ?res (fmt (MultiPartKey m)) = Some g \<and> map_of g n = map_of (snd (gs2 ! i)) n)))"
    if i: "i < length ?gs1" for i
  proof -
    from i k1 obtain m where m: "fst (?gs1 ! i) = MultiPartKey m" by (metis nth_mem)
    note look = distribute_all_lookup[OF d i m]
    have a: "(\<forall>p. map_of (files c) (MultiPartKey (m |` (- set (distribute_over (tag c))))) = Some p \<longrightarrow>
                map_of (snd (gs2 ! i)) (name (tag c)) = Some p) \<and>
           (map_of (files c) (MultiPartKey (m |` (- set (distribute_over (tag c))))) = None \<longrightarrow>
                map_of (snd (gs2 ! i)) (name (tag c)) = map_of (snd (?gs1 ! i)) (name (tag c)))"
      if c: "c \<in> set cs" and h: "is_distributable c \<and>
             (\<forall>c'\<in>set cs. is_distributable c' \<and> name (tag c') = name (tag c) \<longrightarrow> c' = c)" for c
    proof -
      from c h have mem: "c \<in> set ?ds" by simp
      from h have u: "\<forall>c'\<in>set ?ds. name (tag c') = name (tag c) \<longrightarrow> c' = c" by simp
      have "map_of (snd (gs2 ! i)) (name (tag c)) =
          (case map_of (files c) (join_key m (distribute_over (tag c))) of
             None \<Rightarrow> map_of (snd (?gs1 ! i)) (name (tag c)) | Some p \<Rightarrow> Some p)"
        unfolding look[of "name (tag c)"]
        using join_fold_unique[OF u, of "\<lambda>c'. join_key m (distribute_over (tag c'))"
            "map_of (snd (?gs1 ! i)) (name (tag c))"] mem
        by simp
      then show ?thesis by (simp add: join_key_def split: option.splits)
    qed
    have b: "map_of (snd (gs2 ! i)) n = map_of (snd (?gs1 ! i)) n"
      if h: "\<forall>c\<in>set cs. is_distributable c \<longrightarrow> name (tag c) \<noteq> n" for n
    proof -
      from h have "\<forall>c'\<in>set ?ds. name (tag c') \<noteq> n" by simp
      from join_fold_other[OF this, of "\<lambda>c'. join_key m (distribute_over (tag c'))"
          "map_of (snd (?gs1 ! i)) n"]
      show ?thesis unfolding look[of n] .
    qed
    have e: "\<exists>g. map_of ?res (fmt (MultiPartKey m)) = Some g \<and> map_of g n = map_of (snd (gs2 ! i)) n"
      if inj: "inj_on fmt (fst ` set ?gs1)" and h: "\<forall>c\<in>set cs. is_single_part c \<longrightarrow> name (tag c) \<noteq> n" for n
    proof -
      from i len have i2: "i < length gs2" by simp
      from same i have k2: "fst (gs2 ! i) = MultiPartKey m" using m len by (metis nth_map)
      from inj img have inj2: "inj_on fmt (fst ` set gs2)" by simp
      from format_groups_lookup[OF dist2 inj2 i2] k2
      have f: "map_of (format_groups fmt gs2) (fmt (MultiPartKey m)) = Some (snd (gs2 ! i))" by simp
      then have "fmt (MultiPartKey m) \<in> fst ` set (format_groups fmt gs2)"
        by (metis domI dom_map_of_conv_image_fst)
      from merge_collections_has_key[OF this] obtain g where g: "map_of ?res (fmt (MultiPartKey m)) = Some g"
        by blast
      from h have "\<forall>c\<in>set ?sp. name (tag c) \<noteq> n" by simp
      from merge_collections_other_name[OF this, of "format_groups fmt gs2" "fmt (MultiPartKey m)"] f g
      have "map_of g n = map_of (snd (gs2 ! i)) n" by simp
      with g show ?thesis by blast
    qed
    from m a b e show ?thesis by blast
  qed
  show ?thesis
    apply (rule exI[of _ ?gs1])
    apply (rule exI[of _ gs2])
    apply (rule exI[of _ ?res])
    apply (intro conjI)
    apply (simp only: sorted)
    apply (simp only: sorted d)
    apply (rule r)
    apply (rule same)
    using law apply blast
    done
qed

theorem group_by_key_join_law_witness:
  "group_by_key example_input example_key_formatter = Inr example_result \<and>
   distribute_all [example_licenses, example_captions] example_groups1 = Inr example_groups3 \<and>
   map_of (snd (example_groups3 ! 0)) ''caption'' = Some (Single ''1.txt'') \<and>
   map_of (snd (example_groups3 ! 1)) ''caption'' = Some (Single ''1.txt'') \<and>
   map_of (snd (example_groups3 ! 2)) ''caption'' = map_of (snd (example_groups1 ! 2)) ''caption'' \<and>
   map_of (snd (example_groups3 ! 2)) ''license'' = Some (Single ''LICENSE'') \<and>
   map_of (snd (example_groups3 ! 1)) ''crop'' = map_of (snd (example_groups1 ! 1)) ''crop'' \<and>
   (\<exists>g. map_of example_result (GroupKey ''1_1'') = Some g \<and> map_of g ''caption'' = Some (Single ''1.txt''))"
proof -
  have kinds:
    "is_distributable example_captions" "is_distributable example_licenses"
    "\<not> is_distributable example_crops" "\<not> is_distributable example_notes"
    "is_multi_part example_crops" "\<not> is_multi_part example_captions"
    "\<not> is_multi_part example_licenses" "\<not> is_multi_part example_notes"
    "is_single_part example_notes" "\<not> is_single_part example_captions"
    "\<not> is_single_part example_licenses" "\<not> is_single_part example_crops"
    by (simp_all add: is_distributable_def is_multi_part_def is_single_part_def
        example_captions_def example_licenses_def example_crops_def example_notes_def)
  have names:
    "name (tag example_captions) = ''caption''" "name (tag example_licenses) = ''license''"
    "name (tag example_crops) = ''crop''" "name (tag example_notes) = ''note''"
    by (simp_all add: example_captions_def example_licenses_def example_crops_def example_notes_def)
  have over:
    "distribute_over (tag example_captions) = [''crop_index'']"
    "distribute_over (tag example_licenses) = [''id'', ''crop_index'']"
    by (simp_all add: distribute_over_def example_captions_def example_licenses_def)
  have keys: "\<forall>c\<in>set example_input. is_multi_part c \<longrightarrow> (\<forall>kp\<in>set (files c). \<exists>m. fst kp = MultiPartKey m)"
    by (simp add: example_input_def kinds) (simp add: example_crops_def)
  have sorted: "fst (sort_collections_by_type example_input) = [example_crops]"
    "fst (snd (sort_collections_by_type example_input)) = [example_licenses, example_captions]"
    by (simp_all add: example_sorted)
  have phase1: "foldl merge_collection [] [example_crops] = example_groups1"
    by (simp add: example_merge1)
  from group_by_key_join_law[OF keys, of example_key_formatter]
  obtain gs2 res where
    d: "distribute_all [example_licenses, example_captions] example_groups1 = Inr gs2" and
    r: "group_by_key example_input example_key_formatter = Inr res" and
    law: "\<forall>i<length example_groups1. \<exists>m. fst (example_groups1 ! i) = MultiPartKey m \<and>
        (\<forall>c\<in>set example_input. is_distributable c \<and>
             (\<forall>c'\<in>set example_input. is_distributable c' \<and> name (tag c') = name (tag c) \<longrightarrow> c' = c) \<longrightarrow>
           (\<forall>p. map_of (files c) (MultiPartKey (m |` (- set (distribute_over (tag c))))) = Some p \<longrightarrow>
                map_of (snd (gs2 ! i)) (name (tag c)) = Some p) \<and>
           (map_of (files c) (MultiPartKey (m |` (- set (distribute_over (tag c))))) = None \<longrightarrow>
                map_of (snd (gs2 ! i)) (name (tag c)) = map_of (snd (example_groups1 ! i)) (name (tag c)))) \<and>
        (\<forall>n. (\<forall>c\<in>set example_input. is_distributable c \<longrightarrow> name (tag c) \<noteq> n) \<longrightarrow>
             map_of (snd (gs2 ! i)) n = map_of (snd (example_groups1 ! i)) n) \<and>
        (inj_on example_key_formatter (fst ` set example_groups1) \<longrightarrow>
           (\<forall>n. (\<forall>c\<in>set example_input. is_single_part c \<longrightarrow> name (tag c) \<noteq> n) \<longrightarrow>
              (\<exists>g. map_of res (example_key_formatter (MultiPartKey m)) = Some g \<and>
                   map_of g n = map_of (snd (gs2 ! i)) n)))"
    unfolding sorted phase1 by blast
  have gs2: "gs2 = example_groups3"
    using d by (simp add: example_distribute1 example_distribute2)
  have res: "res = example_result"
    using r by (simp add: example_group_by_key)
  have len: "length example_groups1 = 3" by (simp add: example_groups1_def)
  have mem: "example_captions \<in> set example_input" "example_licenses \<in> set example_input"
    by (simp_all add: example_input_def)
  have uc: "is_distributable example_captions \<and>
      (\<forall>c'\<in>set example_input. is_distributable c' \<and> name (tag c') = name (tag example_captions) \<longrightarrow>
         c' = example_captions)"
    by (simp add: example_input_def kinds names)
  have ul: "is_distributable example_licenses \<and>
      (\<forall>c'\<in>set example_input. is_distributable c' \<and> name (tag c') = name (tag example_licenses) \<longrightarrow>
         c' = example_licenses)"
    by (simp add: example_input_def kinds names)
  have nocrop: "\<forall>c\<in>set example_input. is_distributable c \<longrightarrow> name (tag c) \<noteq> ''crop''"
    by (simp add: example_input_def kinds names)
  have nosingle: "\<forall>c\<in>set example_input. is_single_part c \<longrightarrow> name (tag c) \<noteq> ''caption''"
    by (simp add: example_input_def kinds names)
  have "distinct (map example_key_formatter (map fst example_groups1))"
    by (simp add: example_groups1_def example_key_formatter_def)
  then have "inj_on example_key_formatter (set (map fst example_groups1))"
    by (simp only: distinct_map)
  then have inj: "inj_on example_key_formatter (fst ` set example_groups1)"
    by (simp only: set_map)
  have held1: "map_of (files example_captions) (MultiPartKey [''id'' \<mapsto> ''1'']) = Some (Single ''1.txt'')"
    by (simp add: example_captions_def)
  have held2: "map_of (files example_captions) (MultiPartKey [''id'' \<mapsto> ''2'']) = None"
    by (simp add: example_captions_def)
  have held3: "map_of (files example_licenses) (MultiPartKey Map.empty) = Some (Single ''LICENSE'')"
    by (simp add: example_licenses_def)
  note reduced = example_join_keys[unfolded join_key_def key.inject]
  have group:
    "\<exists>m. fst (example_groups1 ! i) = MultiPartKey m \<and>
        (\<forall>c\<in>set example_input. is_distributable c \<and>
             (\<forall>c'\<in>set example_input. is_distributable c' \<and> name (tag c') = name (tag c) \<longrightarrow> c' = c) \<longrightarrow>
           (\<forall>p. map_of (files c) (MultiPartKey (m |` (- set (distribute_over (tag c))))) = Some p \<longrightarrow>
                map_of (snd (gs2 ! i)) (name (tag c)) = Some p) \<and>
           (map_of (files c) (MultiPartKey (m |` (- set (distribute_over (tag c))))) = None \<longrightarrow>
                map_of (snd (gs2 ! i)) (name (tag c)) = map_of (snd (example_groups1 ! i)) (name (tag c)))) \<and>
        (\<forall>n. (\<forall>c\<in>set example_input. is_distributable c \<longrightarrow> name (tag c) \<noteq> n) \<longrightarrow>
             map_of (snd (gs2 ! i)) n = map_of (snd (example_groups1 ! i)) n) \<and>
        (inj_on example_key_formatter (fst ` set example_groups1) \<longrightarrow>
           (\<forall>n. (\<forall>c\<in>set example_input. is_single_part c \<longrightarrow> name (tag c) \<noteq> n) \<longrightarrow>
              (\<exists>g. map_of res (example_key_formatter (MultiPartKey m)) = Some g \<and>
                   map_of g n = map_of (snd (gs2 ! i)) n)))"
    if "i < 3" for i
    using law that by (simp only: len)
  have "(0::nat) < 3" by simp
  from group[OF this] obtain m0 where
    m0: "fst (example_groups1 ! 0) = MultiPartKey m0" and
    j0: "\<forall>c\<in>set example_input. is_distributable c \<and>
             (\<forall>c'\<in>set example_input. is_distributable c' \<and> name (tag c') = name (tag c) \<longrightarrow> c' = c) \<longrightarrow>
           (\<forall>p. map_of (files c) (MultiPartKey (m0 |` (- set (distribute_over (tag c))))) = Some p \<longrightarrow>
                map_of (snd (gs2 ! 0)) (name (tag c)) = Some p) \<and>
           (map_of (files c) (MultiPartKey (m0 |` (- set (distribute_over (tag c))))) = None \<longrightarrow>
                map_of (snd (gs2 ! 0)) (name (tag c)) = map_of (snd (example_groups1 ! 0)) (name (tag c)))"
    by (elim exE conjE)
  from m0 have m0': "m0 = [''id'' \<mapsto> ''1'', ''crop_index'' \<mapsto> ''0'']" by (simp add: example_groups1_def)
  from j0[THEN bspec, OF mem(1), THEN mp, OF uc] held1
  have a: "map_of (snd (example_groups3 ! 0)) ''caption'' = Some (Single ''1.txt'')"
    by (simp add: over names reduced gs2 m0')
  have "(1::nat) < 3" by simp
  from group[OF this] obtain m1 where
    m1: "fst (example_groups1 ! 1) = MultiPartKey m1" and
    j1: "\<forall>c\<in>set example_input. is_distributable c \<and>
             (\<forall>c'\<in>set example_input. is_distributable c' \<and> name (tag c') = name (tag c) \<longrightarrow> c' = c) \<longrightarrow>
           (\<forall>p. map_of (files c) (MultiPartKey (m1 |` (- set (distribute_over (tag c))))) = Some p \<longrightarrow>
                map_of (snd (gs2 ! 1)) (name (tag c)) = Some p) \<and>
           (map_of (files c) (MultiPartKey (m1 |` (- set (distribute_over (tag c))))) = None \<longrightarrow>
                map_of (snd (gs2 ! 1)) (name (tag c)) = map_of (snd (example_groups1 ! 1)) (name (tag c)))" and
    o1: "\<forall>n. (\<forall>c\<in>set example_input. is_distributable c \<longrightarrow> name (tag c) \<noteq> n) \<longrightarrow>
             map_of (snd (gs2 ! 1)) n = map_of (snd (example_groups1 ! 1)) n" and
    e1: "inj_on example_key_formatter (fst ` set example_groups1) \<longrightarrow>
           (\<forall>n. (\<forall>c\<in>set example_input. is_single_part c \<longrightarrow> name (tag c) \<noteq> n) \<longrightarrow>
              (\<exists>g. map_of res (example_key_formatter (MultiPartKey m1)) = Some g \<and>
                   map_of g n = map_of (snd (gs2 ! 1)) n))"
    by (elim exE conjE)
  from m1 have m1': "m1 = [''id'' \<mapsto> ''1'', ''crop_index'' \<mapsto> ''1'']" by (simp add: example_groups1_def)
  from j1[THEN bspec, OF mem(1), THEN mp, OF uc] held1
  have b: "map_of (snd (example_groups3 ! 1)) ''caption'' = Some (Single ''1.txt'')"
    by (simp add: over names reduced gs2 m1')
  from o1[THEN spec, THEN mp, OF nocrop]
  have c: "map_of (snd (example_groups3 ! 1)) ''crop'' = map_of (snd (example_groups1 ! 1)) ''crop''"
    by (simp only: gs2)
  have fm: "example_key_formatter (MultiPartKey m1) = GroupKey ''1_1''"
    by (simp add: m1' example_key_formatter_def)
  from e1[THEN mp, OF inj, THEN spec, THEN mp, OF nosingle] b
  have e: "\<exists>g. map_of example_result (GroupKey ''1_1'') = Some g \<and>
      map_of g ''caption'' = Some (Single ''1.txt'')"
    by (simp only: fm gs2 res)
  have "(2::nat) < 3" by simp
  from group[OF this] obtain m2 where
    m2: "fst (example_groups1 ! 2) = MultiPartKey m2" and
    j2: "\<forall>c\<in>set example_input. is_distributable c \<and>
             (\<forall>c'\<in>set example_input. is_distributable c' \<and> name (tag c') = name (tag c) \<longrightarrow> c' = c) \<longrightarrow>
           (\<forall>p. map_of (files c) (MultiPartKey (m2 |` (- set (distribute_over (tag c))))) = Some p \<longrightarrow>
                map_of (snd (gs2 ! 2)) (name (tag c)) = Some p) \<and>
           (map_of (files c) (MultiPartKey (m2 |` (- set (distribute_over (tag c))))) = None \<longrightarrow>
                map_of (snd (gs2 ! 2)) (name (tag c)) = map_of (snd (example_groups1 ! 2)) (name (tag c)))"
    by (elim exE conjE)
  from m2 have m2': "m2 = [''id'' \<mapsto> ''2'', ''crop_index'' \<mapsto> ''0'']" by (simp add: example_groups1_def)
  from j2[THEN bspec, OF mem(1), THEN mp, OF uc] held2
  have f: "map_of (snd (example_groups3 ! 2)) ''caption'' = map_of (snd (example_groups1 ! 2)) ''caption''"
    by (simp add: over names reduced gs2 m2')
  from j2[THEN bspec, OF mem(2), THEN mp, OF ul] held3
  have g: "map_of (snd (example_groups3 ! 2)) ''license'' = Some (Single ''LICENSE'')"
    by (simp add: over names reduced gs2 m2')
  from r d a b c e f g show ?thesis by (simp add: gs2 res)
qed

section \<open>Single-part collections\<close>

text \<open>
  Claim C5. The result of \<open>group_by_key\<close> is the single-part collections merged, in
  input order, into the groups keyed by \<open>key_formatter\<close>: formatting has been applied to
  every key accumulated by the first two phases before the first single-part entry is
  merged. Merging a collection puts each of its entries under the entry's own key, not
  formatted: into the group already at that key, which keeps its other entries, or into
  a new group when there is none; groups at other keys are not touched.
\<close>

theorem single_part_merged_last:
  "group_by_key cs fmt =
     (case distribute_all (fst (snd (sort_collections_by_type cs)))
             (foldl merge_collection [] (fst (sort_collections_by_type cs))) of
        Inl e \<Rightarrow> Inl e
      | Inr gs \<Rightarrow> Inr (foldl merge_collection (format_groups fmt gs) (filter is_single_part cs))) \<and>
   fst ` set (format_groups fmt gs) = fmt ` fst ` set gs \<and>
   (distinct (map fst (files c)) \<longrightarrow>
      (\<forall>k. map_of (merge_collection F c) k =
         (case map_of (files c) k of
            None \<Rightarrow> map_of F k
          | Some p \<Rightarrow> Some (AList.update (name (tag c)) p (case map_of F k of None \<Rightarrow> [] | Some g \<Rightarrow> g)))))"
proof (intro conjI impI allI)
  show "group_by_key cs fmt =
     (case distribute_all (fst (snd (sort_collections_by_type cs)))
             (foldl merge_collection [] (fst (sort_collections_by_type cs))) of
        Inl e \<Rightarrow> Inl e
      | Inr gs \<Rightarrow> Inr (foldl merge_collection (format_groups fmt gs) (filter is_single_part cs)))"
    by (simp only: group_by_key_phases sort_collections_by_type_def fst_conv snd_conv)
  show "fst ` set (format_groups fmt gs) = fmt ` fst ` set gs"
    by (simp add: format_groups_def format_fold_keys)
next
  fix k assume "distinct (map fst (files c))"
  then show "map_of (merge_collection F c) k =
         (case map_of (files c) k of
            None \<Rightarrow> map_of F k
          | Some p \<Rightarrow> Some (AList.update (name (tag c)) p (case map_of F k of None \<Rightarrow> [] | Some g \<Rightarrow> g)))"
    unfolding merge_collection_def by (rule merge_fold_lookup)
qed

theorem single_part_merged_last_witness:
  "group_by_key example_input example_key_formatter = Inr (merge_collection example_formatted example_notes) \<and>
   fst ` set (format_groups example_key_formatter example_groups3) =
     {GroupKey ''1_0'', GroupKey ''1_1'', GroupKey ''2_0''} \<and>
   distinct (map fst (files example_notes)) \<and>
   map_of (merge_collection example_formatted example_notes) (GroupKey ''1_0'') =
     Some [(''crop'', Single ''1_0.jpg''), (''license'', Single ''LICENSE''), (''caption'', Single ''1.txt''),
           (''note'', Single ''1_0.note'')] \<and>
   map_of (merge_collection example_formatted example_notes) (GroupKey ''misc'') =
     Some [(''note'', Single ''misc.note'')] \<and>
   map_of (merge_collection example_formatted example_notes) (GroupKey ''1_1'') =
     map_of example_formatted (GroupKey ''1_1'')"
proof -
  note t = single_part_merged_last[of example_input example_key_formatter example_groups3
      example_notes example_formatted]
  have d: "distinct (map fst (files example_notes))" by (simp add: example_notes_def)
  from t d have look: "\<forall>k. map_of (merge_collection example_formatted example_notes) k =
         (case map_of (files example_notes) k of
            None \<Rightarrow> map_of example_formatted k
          | Some p \<Rightarrow> Some (AList.update (name (tag example_notes)) p
                (case map_of example_formatted k of None \<Rightarrow> [] | Some g \<Rightarrow> g)))"
    by blast
  from t have "group_by_key example_input example_key_formatter =
     (case distribute_all (fst (snd (sort_collections_by_type example_input)))
             (foldl merge_collection [] (fst (sort_collections_by_type example_input))) of
        Inl e \<Rightarrow> Inl e
      | Inr gs \<Rightarrow> Inr (foldl merge_collection (format_groups example_key_formatter gs)
            (filter is_single_part example_input)))"
    by blast
  then have a: "group_by_key example_input example_key_formatter =
      Inr (merge_collection example_formatted example_notes)"
    using example_group_by_key example_merge2 by simp
  from t have "fst ` set (format_groups example_key_formatter example_groups3) =
      example_key_formatter ` fst ` set example_groups3"
    by blast
  then have b: "fst ` set (format_groups example_key_formatter example_groups3) =
     {GroupKey ''1_0'', GroupKey ''1_1'', GroupKey ''2_0''}"
    by (simp add: example_groups3_def example_key_formatter_def)
  have c1: "map_of (merge_collection example_formatted example_notes) (GroupKey ''1_0'') =
     Some [(''crop'', Single ''1_0.jpg''), (''license'', Single ''LICENSE''), (''caption'', Single ''1.txt''),
           (''note'', Single ''1_0.note'')]"
    using look[rule_format, of "GroupKey ''1_0''"] by (simp add: example_notes_def example_formatted_def)
  have c2: "map_of (merge_collection example_formatted example_notes) (GroupKey ''misc'') =
     Some [(''note'', Single ''misc.note'')]"
    using look[rule_format, of "GroupKey ''misc''"] by (simp add: example_notes_def example_formatted_def)
  have c3: "map_of (merge_collection example_formatted example_notes) (GroupKey ''1_1'') =
     map_of example_formatted (GroupKey ''1_1'')"
    using look[rule_format, of "GroupKey ''1_1''"] by (simp add: example_notes_def)
  from a b d c1 c2 c3 show ?thesis by blast
qed

section \<open>Key parts of a pattern\<close>

lemma names_emit:
  "(case emit t r of Inl e \<Rightarrow> Inl e | Inr ts \<Rightarrow> Inr (placeholder_names ts)) =
   (case r of Inl e \<Rightarrow> Inl e
    | Inr ts \<Rightarrow> Inr ((case t of Placeholder n g \<Rightarrow> [n] | _ \<Rightarrow> []) @ placeholder_names ts))"
  by (simp add: emit_def placeholder_names_def split: sum.splits)

lemma names_of_emit_other:
  "(\<And>n g. t \<noteq> Placeholder n g) \<Longrightarrow> names_of (emit t r) = names_of r"
  by (cases t) (auto simp: names_of_def emit_def placeholder_names_def split: sum.splits)

lemma names_of_emit_placeholder:
  "names_of (emit (Placeholder n g) r) = (case names_of r of Inl e \<Rightarrow> Inl e | Inr ns \<Rightarrow> Inr (n # ns))"
  by (auto simp: names_of_def emit_def placeholder_names_def split: sum.splits)

lemma names_any_start: "names_of (tokenize b s) = names_of (tokenize b' s)"
proof (cases s)
  case Nil
  then show ?thesis by simp
next
  case (Cons c cs)
  have "names_of (emit SegmentWildcard r) = names_of (emit (Native c) r)" for r
    by (simp add: names_of_emit_other)
  then show ?thesis unfolding Cons by auto
qed

lemma key_parts_names: "pattern_key_parts s = names_of (tokenize True s)"
  by (simp only: pattern_key_parts_def names_of_def)

lemma key_parts_native:
  assumes "c \<noteq> CHR ''{''" "c \<noteq> CHR ''}''"
    and "c = CHR 0x5C \<Longrightarrow> cs = [] \<or> (hd cs \<noteq> CHR ''{'' \<and> hd cs \<noteq> CHR ''}'')"
  shows "pattern_key_parts (c # cs) = pattern_key_parts cs"
proof -
  have "names_of (tokenize True (c # cs)) = names_of (tokenize (c = CHR ''/'') cs) \<or>
        names_of (tokenize True (c # cs)) = names_of (tokenize False cs)"
    using assms by (auto simp: names_of_emit_other)
  then have "names_of (tokenize True (c # cs)) = names_of (tokenize True cs)"
    using names_any_start[of "c = CHR ''/''" cs True] names_any_start[of False cs True] by auto
  then show ?thesis by (simp only: key_parts_names)
qed

lemma key_parts_escaped:
  assumes "c = CHR ''{'' \<or> c = CHR ''}''"
  shows "pattern_key_parts (CHR 0x5C # c # cs) = pattern_key_parts cs"
proof -
  have "names_of (tokenize True (CHR 0x5C # c # cs)) = names_of (tokenize False cs)"
    using assms by (auto simp: names_of_emit_other)
  also have "\<dots> = names_of (tokenize True cs)" by (rule names_any_start)
  finally show ?thesis by (simp only: key_parts_names)
qed

lemma not_word_chars: "\<not> is_word_char CHR ''}''" "\<not> is_word_char CHR ''!''"
  by (simp_all add: is_word_char_def)

lemma scan_name:
  assumes "is_identifier n" "\<not> is_word_char d"
  shows "takeWhile is_word_char (n @ d # cs) = n" "dropWhile is_word_char (n @ d # cs) = d # cs"
  using assms by (simp_all add: is_identifier_def takeWhile_append2 dropWhile_append2)

lemma key_parts_placeholder:
  assumes "is_identifier n"
  shows "pattern_key_parts (''{'' @ n @ ''}'' @ cs) =
           (case pattern_key_parts cs of Inl e \<Rightarrow> Inl e | Inr ns \<Rightarrow> Inr (n # ns))"
proof -
  have "names_of (tokenize True (CHR ''{'' # n @ CHR ''}'' # cs)) =
        names_of (emit (Placeholder n False) (tokenize False cs))"
    using assms by (simp add: scan_name[OF assms not_word_chars(1)])
  also have "\<dots> = (case names_of (tokenize False cs) of Inl e \<Rightarrow> Inl e | Inr ns \<Rightarrow> Inr (n # ns))"
    by (rule names_of_emit_placeholder)
  also have "names_of (tokenize False cs) = names_of (tokenize True cs)" by (rule names_any_start)
  finally show ?thesis by (simp add: key_parts_names)
qed

lemma key_parts_greedy_placeholder:
  assumes "is_identifier n"
  shows "pattern_key_parts (''{'' @ n @ ''!g}'' @ cs) =
           (case pattern_key_parts cs of Inl e \<Rightarrow> Inl e | Inr ns \<Rightarrow> Inr (n # ns))"
proof -
  have "names_of (tokenize True (CHR ''{'' # n @ CHR ''!'' # CHR ''g'' # CHR ''}'' # cs)) =
        names_of (emit (Placeholder n True) (tokenize False cs))"
    using assms by (simp add: scan_name[OF assms not_word_chars(2)])
  also have "\<dots> = (case names_of (tokenize False cs) of Inl e \<Rightarrow> Inl e | Inr ns \<Rightarrow> Inr (n # ns))"
    by (rule names_of_emit_placeholder)
  also have "names_of (tokenize False cs) = names_of (tokenize True cs)" by (rule names_any_start)
  finally show ?thesis by (simp add: key_parts_names)
qed

lemma key_parts_raw:
  assumes "CHR ''{'' \<notin> set s" "CHR ''}'' \<notin> set s" "s = [] \<or> last s \<noteq> CHR 0x5C"
  shows "pattern_key_parts (s @ rest) = pattern_key_parts rest"
  using assms
proof (induction s)
  case Nil
  then show ?case by simp
next
  case (Cons c s)
  have step: "pattern_key_parts (c # (s @ rest)) = pattern_key_parts (s @ rest)"
  proof (rule key_parts_native)
    show "c \<noteq> CHR ''{''" "c \<noteq> CHR ''}''" using Cons.prems by auto
    assume b: "c = CHR 0x5C"
    show "s @ rest = [] \<or> (hd (s @ rest) \<noteq> CHR ''{'' \<and> hd (s @ rest) \<noteq> CHR ''}'')"
    proof (cases s)
      case Nil
      with Cons.prems b show ?thesis by simp
    next
      case (Cons d s')
      with Cons.prems show ?thesis by auto
    qed
  qed
  have "s = [] \<or> last s \<noteq> CHR 0x5C" using Cons.prems by (auto split: if_splits)
  with Cons have "pattern_key_parts (s @ rest) = pattern_key_parts rest" by auto
  with step show ?case by simp
qed

lemma key_parts_render:
  assumes "\<forall>p\<in>set ps. well_formed p"
  shows "pattern_key_parts (render ps) = Inr (hole_names ps)"
  using assms
proof (induction ps)
  case Nil
  then show ?case by (simp add: render_def pattern_key_parts_def placeholder_names_def)
next
  case (Cons p ps)
  then have ih: "pattern_key_parts (render ps) = Inr (hole_names ps)" by simp
  have r: "render (q # ps) = render_part q @ render ps" for q by (simp add: render_def)
  show ?case
  proof (cases p)
    case (Raw s)
    with Cons.prems ih show ?thesis by (simp add: r key_parts_raw)
  next
    case (EscapedBrace c)
    with Cons.prems ih show ?thesis by (simp add: r key_parts_escaped)
  next
    case (Hole n greedy)
    with Cons.prems have n: "is_identifier n" by simp
    show ?thesis
      using key_parts_placeholder[OF n, of "render ps"] key_parts_greedy_placeholder[OF n, of "render ps"]
        ih Hole
      by (simp add: r)
  qed
qed

lemma well_formed_lazy: "well_formed (lazy p) = well_formed p"
  by (cases p) simp_all

lemma hole_names_lazy: "hole_names (map lazy ps) = hole_names ps"
  by (induction ps rule: hole_names.induct) simp_all

text \<open>
  Claim C8. For every pattern written as a sequence of raw text, escaped braces and
  placeholders, \<open>key_parts\<close> is the list of the placeholder names from left to right:
  raw text (any native syntax without a brace, such as \<open>(?P<\<dots>>\<dots>)\<close>) and escaped
  braces add nothing, and the pattern with every \<open>!g\<close> removed has the same list. The
  ten patterns of \<open>test_path_parser_key_parts\<close> give the lists the test expects.
\<close>

theorem key_parts_order:
  "((\<forall>p\<in>set ps. well_formed p) \<longrightarrow>
      pattern_key_parts (render ps) = Inr (hole_names ps) \<and>
      pattern_key_parts (render (map lazy ps)) = pattern_key_parts (render ps)) \<and>
   pattern_key_parts ''.*'' = Inr [] \<and>
   pattern_key_parts ''{z}_{a}'' = Inr [''z'', ''a''] \<and>
   pattern_key_parts ''foo/bar_{index}.txt'' = Inr [''index''] \<and>
   pattern_key_parts ''foo/*/bar_{index}.txt'' = Inr [''index''] \<and>
   pattern_key_parts ''foo/bar_{index}.(mp3|aac|wav)'' = Inr [''index''] \<and>
   pattern_key_parts ''foo/{subset}/{name}.txt'' = Inr [''subset'', ''name''] \<and>
   pattern_key_parts ''foo/(a|b)/file_{index}.txt'' = Inr [''index''] \<and>
   pattern_key_parts ''foo/{artist!g}-{album}/tracks.json'' = Inr [''artist'', ''album''] \<and>
   pattern_key_parts (''(?P<this should be escaped>'' @ [CHR 0x5C] @ ''d){foo}'') = Inr [''foo''] \<and>
   pattern_key_parts ([CHR 0x5C] @ ''{this should be escaped'' @ [CHR 0x5C] @ ''}{foo}'') = Inr [''foo'']"
proof -
  have general: "(\<forall>p\<in>set ps. well_formed p) \<longrightarrow>
      pattern_key_parts (render ps) = Inr (hole_names ps) \<and>
      pattern_key_parts (render (map lazy ps)) = pattern_key_parts (render ps)"
  proof
    assume w: "\<forall>p\<in>set ps. well_formed p"
    then have "\<forall>p\<in>set (map lazy ps). well_formed p" by (simp add: well_formed_lazy)
    then have "pattern_key_parts (render (map lazy ps)) = Inr (hole_names (map lazy ps))"
      by (rule key_parts_render)
    with key_parts_render[OF w] show "pattern_key_parts (render ps) = Inr (hole_names ps) \<and>
      pattern_key_parts (render (map lazy ps)) = pattern_key_parts (render ps)"
      by (simp add: hole_names_lazy)
  qed
  have t1: "pattern_key_parts ''.*'' = Inr []" by code_simp
  have t2: "pattern_key_parts ''{z}_{a}'' = Inr [''z'', ''a'']" by code_simp
  have t3: "pattern_key_parts ''foo/bar_{index}.txt'' = Inr [''index'']" by code_simp
  have t4: "pattern_key_parts ''foo/*/bar_{index}.txt'' = Inr [''index'']" by code_simp
  have t5: "pattern_key_parts ''foo/bar_{index}.(mp3|aac|wav)'' = Inr [''index'']" by code_simp
  have t6: "pattern_key_parts ''foo/{subset}/{name}.txt'' = Inr [''subset'', ''name'']" by code_simp
  have t7: "pattern_key_parts ''foo/(a|b)/file_{index}.txt'' = Inr [''index'']" by code_simp
  have t8: "pattern_key_parts ''foo/{artist!g}-{album}/tracks.json'' = Inr [''artist'', ''album'']" by code_simp
  have t9: "pattern_key_parts (''(?P<this should be escaped>'' @ [CHR 0x5C] @ ''d){foo}'') = Inr [''foo'']" by code_simp
  have t10: "pattern_key_parts ([CHR 0x5C] @ ''{this should be escaped'' @ [CHR 0x5C] @ ''}{foo}'') = Inr [''foo'']" by code_simp
  from general t1 t2 t3 t4 t5 t6 t7 t8 t9 t10 show ?thesis by blast
qed

theorem key_parts_order_witness:
  "list_all well_formed [Raw (''(?P<this should be escaped>'' @ [CHR 0x5C] @ ''d)''), Hole ''z'' True,
               EscapedBrace CHR ''{'', Raw ''a'', EscapedBrace CHR ''}'', Hole ''a'' False] \<and>
   render [Raw (''(?P<this should be escaped>'' @ [CHR 0x5C] @ ''d)''), Hole ''z'' True,
           EscapedBrace CHR ''{'', Raw ''a'', EscapedBrace CHR ''}'', Hole ''a'' False] =
     ''(?P<this should be escaped>'' @ [CHR 0x5C] @ ''d){z!g}'' @ [CHR 0x5C] @ ''{a'' @ [CHR 0x5C] @ ''}{a}'' \<and>
   pattern_key_parts (''(?P<this should be escaped>'' @ [CHR 0x5C] @ ''d){z!g}'' @ [CHR 0x5C] @ ''{a'' @ [CHR 0x5C] @ ''}{a}'')
     = Inr [''z'', ''a''] \<and>
   pattern_key_parts (''(?P<this should be escaped>'' @ [CHR 0x5C] @ ''d){z}'' @ [CHR 0x5C] @ ''{a'' @ [CHR 0x5C] @ ''}{a}'')
     = Inr [''z'', ''a'']"
proof -
  let ?ps = "[Raw (''(?P<this should be escaped>'' @ [CHR 0x5C] @ ''d)''), Hole ''z'' True,
               EscapedBrace CHR ''{'', Raw ''a'', EscapedBrace CHR ''}'', Hole ''a'' False]"
  have w: "\<forall>p\<in>set ?ps. well_formed p"
    by (simp add: is_identifier_def is_word_char_def is_digit_def)
  have r: "render ?ps =
     ''(?P<this should be escaped>'' @ [CHR 0x5C] @ ''d){z!g}'' @ [CHR 0x5C] @ ''{a'' @ [CHR 0x5C] @ ''}{a}''"
    by (simp add: render_def)
  have r': "render (map lazy ?ps) =
     ''(?P<this should be escaped>'' @ [CHR 0x5C] @ ''d){z}'' @ [CHR 0x5C] @ ''{a'' @ [CHR 0x5C] @ ''}{a}''"
    by (simp add: render_def)
  from key_parts_order[of ?ps] w have
    a: "pattern_key_parts (render ?ps) = Inr (hole_names ?ps)" and
    b: "pattern_key_parts (render (map lazy ?ps)) = pattern_key_parts (render ?ps)"
    by blast+
  have h: "hole_names ?ps = [''z'', ''a'']" by simp
  from w have l: "list_all well_formed ?ps" by (simp only: list_all_iff)
  from a b h r r' l show ?thesis by simp
qed

section \<open>What a match consumes\<close>

lemma splits_sound: "(p, r) \<in> set (splits s) \<Longrightarrow> s = p @ r \<and> p \<noteq> []"
  by (induction s arbitrary: p r) auto






lemma match_path_compile:
  "match_path pattern path =
     (case compile pattern of
        Inl e \<Rightarrow> Inl e
      | Inr r \<Rightarrow> Inr (map_option (\<lambda>tr. MultiPartKey (map_of (groupdict tr))) (fullmatch r path)))"
  by (simp add: match_path_def PathParser_def compile_def split: sum.splits)

lemma match_path_groups:
  "match_path pattern path =
     (case match_groups pattern path of
        Inl e \<Rightarrow> Inl e
      | Inr g \<Rightarrow> Inr (map_option (\<lambda>al. MultiPartKey (map_of al)) g))"
  by (simp add: match_path_compile match_groups_def option.map_comp comp_def split: sum.splits)

section \<open>Lazy and greedy placeholders\<close>

lemma tokenize_placeholder:
  assumes "is_identifier n"
  shows "tokenize b (CHR ''{'' # n @ CHR ''}'' # cs) = emit (Placeholder n False) (tokenize False cs)"
    and "tokenize b (CHR ''{'' # n @ CHR ''!'' # CHR ''g'' # CHR ''}'' # cs) =
           emit (Placeholder n True) (tokenize False cs)"
  using assms
  by (simp_all add: scan_name[OF assms not_word_chars(1)] scan_name[OF assms not_word_chars(2)])

lemma compile_two_placeholders:
  assumes "is_identifier a" "is_identifier b"
  shows "compile (''{'' @ a @ ''}-{'' @ b @ ''}'') =
           Inr (Then (Capture a False) (Then (Chr CHR ''-'') (Then (Capture b False) Empty)))"
    and "compile (''{'' @ a @ ''!g}-{'' @ b @ ''}'') =
           Inr (Then (Capture a True) (Then (Chr CHR ''-'') (Then (Capture b False) Empty)))"
proof -
  have tb: "tokenize False (CHR ''-'' # CHR ''{'' # b @ ''}'') = Inr [Native CHR ''-'', Placeholder b False]"
    using tokenize_placeholder(1)[OF assms(2), of False "[]"] by (simp add: emit_def)
  have t1: "tokenize True (''{'' @ a @ ''}-{'' @ b @ ''}'') =
              Inr [Placeholder a False, Native CHR ''-'', Placeholder b False]"
    using tokenize_placeholder(1)[OF assms(1), of True "CHR ''-'' # CHR ''{'' # b @ ''}''"] tb
    by (simp add: emit_def)
  have t2: "tokenize True (''{'' @ a @ ''!g}-{'' @ b @ ''}'') =
              Inr [Placeholder a True, Native CHR ''-'', Placeholder b False]"
    using tokenize_placeholder(2)[OF assms(1), of True "CHR ''-'' # CHR ''{'' # b @ ''}''"] tb
    by (simp add: emit_def)
  show "compile (''{'' @ a @ ''}-{'' @ b @ ''}'') =
           Inr (Then (Capture a False) (Then (Chr CHR ''-'') (Then (Capture b False) Empty)))"
    unfolding compile_def t1 by (simp add: emit_def sequence_def close_frame_def)
  show "compile (''{'' @ a @ ''!g}-{'' @ b @ ''}'') =
           Inr (Then (Capture a True) (Then (Chr CHR ''-'') (Then (Capture b False) Empty)))"
    unfolding compile_def t2 by (simp add: emit_def sequence_def close_frame_def)
qed

lemma filter_map_fst:
  "filter (\<lambda>(p, r). Q r) (map (\<lambda>(p, r). (h p, r)) xs) =
   map (\<lambda>(p, r). (h p, r)) (filter (\<lambda>(p, r). Q r) xs)"
  by (induction xs) auto

lemma filter_map_swap:
  "filter (\<lambda>(rest, t). Q rest) (map (\<lambda>(p, r). (r, k p)) xs) =
   map (\<lambda>(p, r). (r, k p)) (filter (\<lambda>(p, r). Q r) xs)"
  by (induction xs) auto

lemma filter_concat_map_swap:
  "filter P (concat (map (\<lambda>(s', t). R s' t) (map (\<lambda>(p, r). (r, k p)) xs))) =
   concat (map (\<lambda>(p, r). filter P (R r (k p))) xs)"
  by (induction xs) auto

lemma concat_run_Empty: "concat (map (\<lambda>(s', t). run Empty s' t) xs) = xs"
  by (induction xs) (auto simp: run_Empty)

lemma splits_full: "filter (\<lambda>(p, r). r = []) (splits v) = (if v = [] then [] else [(v, [])])"
proof (induction v)
  case Nil
  then show ?case by simp
next
  case (Cons c cs)
  have "filter (\<lambda>(p, r). r = []) (map (\<lambda>(p, r). (c # p, r)) (splits cs)) =
        map (\<lambda>(p, r). (c # p, r)) (filter (\<lambda>(p, r). r = []) (splits cs))"
    by (rule filter_map_fst)
  with Cons show ?case by simp
qed

lemma after_dash_eq:
  "after_dash b r tr =
     (case r of
        [] \<Rightarrow> []
      | x # v \<Rightarrow> if x = CHR ''-'' \<and> v \<noteq> [] then [([], tr @ [Text CHR ''-'', Captured b v])] else [])"
proof (cases r)
  case Nil
  then show ?thesis by (simp add: after_dash_def run_Then run_Chr)
next
  case (Cons x v)
  have last: "filter (\<lambda>(rest, tr'). rest = []) (run (Then (Capture b False) Empty) v t) =
        (if v = [] then [] else [([], t @ [Captured b v])])" for t
  proof -
    have "run (Then (Capture b False) Empty) v t = map (\<lambda>(p, r). (r, t @ [Captured b p])) (splits v)"
      by (simp only: run_Then concat_run_Empty run_Capture if_False)
    then have "filter (\<lambda>(rest, tr'). rest = []) (run (Then (Capture b False) Empty) v t) =
        map (\<lambda>(p, r). (r, t @ [Captured b p])) (filter (\<lambda>(p, r). r = []) (splits v))"
      by (simp only: filter_map_swap)
    then show ?thesis by (simp add: splits_full)
  qed
  show ?thesis
  proof (cases "x = CHR ''-''")
    case True
    with Cons last[of "tr @ [Text CHR ''-'']"] show ?thesis
      by (simp add: after_dash_def run_Then[of "Chr CHR ''-''"] run_Chr)
  next
    case False
    with Cons show ?thesis by (simp add: after_dash_def run_Then[of "Chr CHR ''-''"] run_Chr)
  qed
qed

lemma fullmatch_two_placeholders:
  "fullmatch (Then (Capture a g) (Then (Chr CHR ''-'') (Then (Capture b False) Empty))) s =
     (case concat (map (\<lambda>(p, r). after_dash b r [Captured a p]) (if g then rev (splits s) else splits s)) of
        [] \<Rightarrow> None
      | (rest, tr) # others \<Rightarrow> Some tr)"
proof -
  have "filter (\<lambda>(rest, tr'). rest = [])
          (run (Then (Capture a g) (Then (Chr CHR ''-'') (Then (Capture b False) Empty))) s []) =
        concat (map (\<lambda>(p, r). after_dash b r [Captured a p]) (if g then rev (splits s) else splits s))"
    unfolding run_Then[of "Capture a g"] run_Capture after_dash_def
    by (simp only: filter_concat_map_swap append_Nil)
  then show ?thesis by (simp add: fullmatch_def)
qed

lemma map_shift_prefix:
  "map (\<lambda>(p, r). F (pre @ p) r) (map (\<lambda>(p, r). (c # p, r)) xs) =
   map (\<lambda>(p, r). F ((pre @ [c]) @ p) r) xs"
  by (induction xs) auto

lemma lazy_first:
  assumes "u \<noteq> []" "CHR ''-'' \<notin> set (tl u)" "v \<noteq> []"
  shows "\<exists>more. concat (map (\<lambda>(p, r). after_dash b r [Captured a (pre @ p)]) (splits (u @ CHR ''-'' # v))) =
           ([], [Captured a (pre @ u), Text CHR ''-'', Captured b v]) # more"
  using assms
proof (induction u arbitrary: pre)
  case Nil
  then show ?case by simp
next
  case (Cons c u)
  show ?case
  proof (cases u)
    case Nil
    with Cons.prems show ?thesis by (simp add: after_dash_eq)
  next
    case (Cons d u')
    with Cons.prems have d: "d \<noteq> CHR ''-''" by auto
    have u: "u \<noteq> []" "CHR ''-'' \<notin> set (tl u)" using Cons Cons.prems by auto
    from Cons.IH[OF u Cons.prems(3), of "pre @ [c]"] obtain more where
      ih: "concat (map (\<lambda>(p, r). after_dash b r [Captured a ((pre @ [c]) @ p)]) (splits (u @ CHR ''-'' # v))) =
           ([], [Captured a ((pre @ [c]) @ u), Text CHR ''-'', Captured b v]) # more"
      by blast
    have first: "after_dash b (u @ CHR ''-'' # v) [Captured a (pre @ [c])] = []"
      using d Cons by (simp add: after_dash_eq)
    have "concat (map (\<lambda>(p, r). after_dash b r [Captured a (pre @ p)]) (splits ((c # u) @ CHR ''-'' # v))) =
          after_dash b (u @ CHR ''-'' # v) [Captured a (pre @ [c])] @
          concat (map (\<lambda>(p, r). after_dash b r [Captured a (pre @ p)])
                   (map (\<lambda>(p, r). (c # p, r)) (splits (u @ CHR ''-'' # v))))"
      by simp
    also have "\<dots> = concat (map (\<lambda>(p, r). after_dash b r [Captured a ((pre @ [c]) @ p)]) (splits (u @ CHR ''-'' # v)))"
      unfolding first map_shift_prefix[of "\<lambda>q r. after_dash b r [Captured a q]" pre c] by simp
    finally show ?thesis using ih by simp
  qed
qed

lemma no_candidate:
  assumes "(p, r) \<in> set (splits (x # v))" "CHR ''-'' \<notin> set (butlast v)"
  shows "after_dash b r t = []"
proof (rule ccontr)
  assume "after_dash b r t \<noteq> []"
  then obtain v' where r: "r = CHR ''-'' # v'" and v': "v' \<noteq> []"
    by (auto simp: after_dash_eq split: list.splits if_splits)
  from splits_sound[OF assms(1)] obtain p' where "v = p' @ r"
    by (cases p) auto
  with r v' have "butlast v = p' @ CHR ''-'' # butlast v'" by (simp add: butlast_append)
  with assms(2) show False by simp
qed

lemma concat_all_empty:
  assumes "\<And>p r. (p, r) \<in> set xs \<Longrightarrow> F p r = []"
  shows "concat (map (\<lambda>(p, r). F p r) (rev xs)) = []"
  using assms by auto

lemma greedy_first:
  assumes "u \<noteq> []" "v \<noteq> []" "CHR ''-'' \<notin> set (butlast v)"
  shows "\<exists>more. concat (map (\<lambda>(p, r). after_dash b r [Captured a (pre @ p)]) (rev (splits (u @ CHR ''-'' # v)))) =
           ([], [Captured a (pre @ u), Text CHR ''-'', Captured b v]) # more"
  using assms
proof (induction u arbitrary: pre)
  case Nil
  then show ?case by simp
next
  case (Cons c u)
  have unfold: "concat (map (\<lambda>(p, r). after_dash b r [Captured a (pre @ p)]) (rev (splits (c # w)))) =
        concat (map (\<lambda>(p, r). after_dash b r [Captured a ((pre @ [c]) @ p)]) (rev (splits w))) @
        after_dash b w [Captured a (pre @ [c])]" for w
  proof -
    let ?f = "\<lambda>(p, r). after_dash b r [Captured a (pre @ p)]"
    let ?f' = "\<lambda>(p, r). after_dash b r [Captured a ((pre @ [c]) @ p)]"
    let ?g = "\<lambda>(p, r). (c # p, r)"
    have 1: "map ?f (map ?g (splits w)) = map ?f' (splits w)"
      by (rule map_shift_prefix[of "\<lambda>q r. after_dash b r [Captured a q]" pre c])
    have "rev (splits (c # w)) = rev (map ?g (splits w)) @ [([c], w)]" by simp
    then have "map ?f (rev (splits (c # w))) = map ?f (rev (map ?g (splits w))) @ [?f ([c], w)]"
      by (simp only: map_append list.map)
    also have "map ?f (rev (map ?g (splits w))) = rev (map ?f (map ?g (splits w)))"
      by (simp only: rev_map)
    also have "\<dots> = map ?f' (rev (splits w))"
      by (simp only: 1 rev_map)
    finally have "map ?f (rev (splits (c # w))) = map ?f' (rev (splits w)) @ [?f ([c], w)]" .
    then have "concat (map ?f (rev (splits (c # w)))) = concat (map ?f' (rev (splits w))) @ ?f ([c], w)"
      by (simp only: concat_append concat.simps append_Nil2)
    then show ?thesis by simp
  qed
  show ?case
  proof (cases u)
    case Nil
    have "after_dash b r [Captured a ((pre @ [c]) @ p)] = []" if "(p, r) \<in> set (splits (CHR ''-'' # v))" for p r
      using that Cons.prems(3) by (rule no_candidate)
    then have "concat (map (\<lambda>(p, r). after_dash b r [Captured a ((pre @ [c]) @ p)]) (rev (splits (CHR ''-'' # v)))) = []"
      by (rule concat_all_empty)
    then have e: "concat (map (\<lambda>(p, r). after_dash b r [Captured a ((pre @ [c]) @ p)]) (rev (splits (CHR ''-'' # v)))) = []" .
    have l: "after_dash b (CHR ''-'' # v) [Captured a (pre @ [c])] =
        [([], [Captured a (pre @ [c]), Text CHR ''-'', Captured b v])]"
      using Cons.prems(2) by (simp add: after_dash_eq)
    have "concat (map (\<lambda>(p, r). after_dash b r [Captured a (pre @ p)]) (rev (splits (c # CHR ''-'' # v)))) =
        [([], [Captured a (pre @ [c]), Text CHR ''-'', Captured b v])]"
      by (simp only: unfold[of "CHR ''-'' # v"] e l append_Nil)
    moreover have "(c # u) @ CHR ''-'' # v = c # CHR ''-'' # v" "pre @ c # u = pre @ [c]"
      using Nil by simp_all
    ultimately show ?thesis by (simp only: exI[of _ "[]"])
  next
    case (Cons d u')
    then have u: "u \<noteq> []" by simp
    from Cons.IH[OF u Cons.prems(2,3), of "pre @ [c]"] obtain more where
      ih: "concat (map (\<lambda>(p, r). after_dash b r [Captured a ((pre @ [c]) @ p)]) (rev (splits (u @ CHR ''-'' # v)))) =
           ([], [Captured a ((pre @ [c]) @ u), Text CHR ''-'', Captured b v]) # more"
      by blast
    from unfold[of "u @ CHR ''-'' # v"] ih show ?thesis by simp
  qed
qed

lemma groupdict_two: "a \<noteq> b \<Longrightarrow> groupdict [Captured a u, Text c, Captured b v] = [(a, u), (b, v)]"
  by (simp add: groupdict_def)

lemma shortest_prefix:
  assumes "\<forall>u' v'. u' \<noteq> [] \<and> v' \<noteq> [] \<and> u' @ ''-'' @ v' = u @ ''-'' @ v \<longrightarrow> length u \<le> length u'"
    and "u \<noteq> []"
  shows "CHR ''-'' \<notin> set (tl u)"
proof
  assume "CHR ''-'' \<in> set (tl u)"
  then obtain u1 u2 where t: "tl u = u1 @ CHR ''-'' # u2" by (auto dest: split_list)
  with assms(2) have u: "u = hd u # u1 @ CHR ''-'' # u2" by (cases u) auto
  have "(hd u # u1) @ ''-'' @ (u2 @ ''-'' @ v) = u @ ''-'' @ v" by (subst (2) u) simp
  with assms(1) have "length u \<le> length (hd u # u1)" by blast
  with u show False by (metis length_append length_Cons not_less_eq_eq le_add1 add_Suc_right)
qed

lemma longest_prefix:
  assumes "\<forall>u' v'. u' \<noteq> [] \<and> v' \<noteq> [] \<and> u' @ ''-'' @ v' = u @ ''-'' @ v \<longrightarrow> length u' \<le> length u"
    and "u \<noteq> []" "v \<noteq> []"
  shows "CHR ''-'' \<notin> set (butlast v)"
proof
  assume "CHR ''-'' \<in> set (butlast v)"
  then obtain v1 v2 where t: "butlast v = v1 @ CHR ''-'' # v2" by (auto dest: split_list)
  with assms(3) have v: "v = v1 @ CHR ''-'' # v2 @ [last v]"
    by (metis append_butlast_last_id append.assoc append_Cons)
  have "(u @ ''-'' @ v1) @ ''-'' @ (v2 @ [last v]) = u @ ''-'' @ v" by (subst (2) v) simp
  with assms(1,2) have "length (u @ ''-'' @ v1) \<le> length u" by blast
  then show False by simp
qed

lemma match_two_placeholders:
  assumes ids: "is_identifier a" "is_identifier b" and ab: "a \<noteq> b"
    and first: "\<exists>more. concat (map (\<lambda>(p, r). after_dash b r [Captured a p])
                  (if g then rev (splits s) else splits s)) =
               ([], [Captured a u, Text CHR ''-'', Captured b v]) # more"
  shows "match_path (''{'' @ a @ (if g then ''!g'' else []) @ ''}-{'' @ b @ ''}'') s =
           Inr (Some (MultiPartKey (map_of [(a, u), (b, v)])))"
proof -
  have c: "compile (''{'' @ a @ (if g then ''!g'' else []) @ ''}-{'' @ b @ ''}'') =
             Inr (Then (Capture a g) (Then (Chr CHR ''-'') (Then (Capture b False) Empty)))"
    using compile_two_placeholders[OF ids] by (cases g) simp_all
  from first obtain more where
    "concat (map (\<lambda>(p, r). after_dash b r [Captured a p]) (if g then rev (splits s) else splits s)) =
       ([], [Captured a u, Text CHR ''-'', Captured b v]) # more"
    by blast
  then have f: "fullmatch (Then (Capture a g) (Then (Chr CHR ''-'') (Then (Capture b False) Empty))) s =
      Some [Captured a u, Text CHR ''-'', Captured b v]"
    by (simp only: fullmatch_two_placeholders list.case prod.case)
  show ?thesis
    by (simp only: match_path_compile c f sum.case option.map groupdict_two[OF ab])
qed

text \<open>
  Claim C6. In a pattern \<open>{a}-{b}\<close> the first placeholder takes the shortest prefix that
  lets the rest of the pattern match, and in \<open>{a!g}-{b}\<close> the longest one: if the path is
  \<open>u-v\<close> with \<open>u\<close> and \<open>v\<close> non-empty and no split of the path at a dash has a shorter
  (for \<open>!g\<close>: a longer) non-empty first part, the match is \<open>a = u\<close>, \<open>b = v\<close>. The three
  cases of \<open>test_path_parser\<close> on \<open>foo/a-a-a-a/tracks.json\<close> give the keys the test expects.
\<close>

theorem greediness_law:
  "(is_identifier a \<and> is_identifier b \<and> a \<noteq> b \<and> u \<noteq> [] \<and> v \<noteq> [] \<longrightarrow>
      ((\<forall>u' v'. u' \<noteq> [] \<and> v' \<noteq> [] \<and> u' @ ''-'' @ v' = u @ ''-'' @ v \<longrightarrow> length u \<le> length u') \<longrightarrow>
         match_path (''{'' @ a @ ''}-{'' @ b @ ''}'') (u @ ''-'' @ v) =
           Inr (Some (MultiPartKey (map_of [(a, u), (b, v)])))) \<and>
      ((\<forall>u' v'. u' \<noteq> [] \<and> v' \<noteq> [] \<and> u' @ ''-'' @ v' = u @ ''-'' @ v \<longrightarrow> length u' \<le> length u) \<longrightarrow>
         match_path (''{'' @ a @ ''!g}-{'' @ b @ ''}'') (u @ ''-'' @ v) =
           Inr (Some (MultiPartKey (map_of [(a, u), (b, v)]))))) \<and>
   match_path ''foo/{artist}-{album}/tracks.json'' ''foo/a-a-a-a/tracks.json'' =
     Inr (Some (MultiPartKey (map_of [(''artist'', ''a''), (''album'', ''a-a-a'')]))) \<and>
   match_path ''foo/{artist!g}-{album}/tracks.json'' ''foo/a-a-a-a/tracks.json'' =
     Inr (Some (MultiPartKey (map_of [(''artist'', ''a-a-a''), (''album'', ''a'')]))) \<and>
   match_path ''foo/{artist}-{album!g}/tracks.json'' ''foo/a-a-a-a/tracks.json'' =
     Inr (Some (MultiPartKey (map_of [(''artist'', ''a''), (''album'', ''a-a-a'')])))"
proof (intro conjI impI)
  assume h: "is_identifier a \<and> is_identifier b \<and> a \<noteq> b \<and> u \<noteq> [] \<and> v \<noteq> []"
    and m: "\<forall>u' v'. u' \<noteq> [] \<and> v' \<noteq> [] \<and> u' @ ''-'' @ v' = u @ ''-'' @ v \<longrightarrow> length u \<le> length u'"
  from h have u: "u \<noteq> []" and v: "v \<noteq> []" by simp_all
  from shortest_prefix[OF m u] have "CHR ''-'' \<notin> set (tl u)" .
  from lazy_first[OF u this v, of b a "[]"]
  have "\<exists>more. concat (map (\<lambda>(p, r). after_dash b r [Captured a p])
                  (if False then rev (splits (u @ ''-'' @ v)) else splits (u @ ''-'' @ v))) =
               ([], [Captured a u, Text CHR ''-'', Captured b v]) # more"
    by simp
  with h have "match_path (''{'' @ a @ (if False then ''!g'' else []) @ ''}-{'' @ b @ ''}'') (u @ ''-'' @ v) =
           Inr (Some (MultiPartKey (map_of [(a, u), (b, v)])))"
    by (intro match_two_placeholders) simp_all
  then show "match_path (''{'' @ a @ ''}-{'' @ b @ ''}'') (u @ ''-'' @ v) =
           Inr (Some (MultiPartKey (map_of [(a, u), (b, v)])))"
    by simp
next
  assume h: "is_identifier a \<and> is_identifier b \<and> a \<noteq> b \<and> u \<noteq> [] \<and> v \<noteq> []"
    and m: "\<forall>u' v'. u' \<noteq> [] \<and> v' \<noteq> [] \<and> u' @ ''-'' @ v' = u @ ''-'' @ v \<longrightarrow> length u' \<le> length u"
  from h have u: "u \<noteq> []" and v: "v \<noteq> []" by simp_all
  from longest_prefix[OF m u v] have "CHR ''-'' \<notin> set (butlast v)" .
  from greedy_first[OF u v this, of b a "[]"]
  have "\<exists>more. concat (map (\<lambda>(p, r). after_dash b r [Captured a p])
                  (if True then rev (splits (u @ ''-'' @ v)) else splits (u @ ''-'' @ v))) =
               ([], [Captured a u, Text CHR ''-'', Captured b v]) # more"
    by simp
  with h have "match_path (''{'' @ a @ (if True then ''!g'' else []) @ ''}-{'' @ b @ ''}'') (u @ ''-'' @ v) =
           Inr (Some (MultiPartKey (map_of [(a, u), (b, v)])))"
    by (intro match_two_placeholders) simp_all
  then show "match_path (''{'' @ a @ ''!g}-{'' @ b @ ''}'') (u @ ''-'' @ v) =
           Inr (Some (MultiPartKey (map_of [(a, u), (b, v)])))"
    by simp
next
  have "match_groups ''foo/{artist}-{album}/tracks.json'' ''foo/a-a-a-a/tracks.json'' =
      Inr (Some [(''artist'', ''a''), (''album'', ''a-a-a'')])"
    by code_simp
  then show "match_path ''foo/{artist}-{album}/tracks.json'' ''foo/a-a-a-a/tracks.json'' =
     Inr (Some (MultiPartKey (map_of [(''artist'', ''a''), (''album'', ''a-a-a'')])))"
    by (simp add: match_path_groups)
next
  have "match_groups ''foo/{artist!g}-{album}/tracks.json'' ''foo/a-a-a-a/tracks.json'' =
      Inr (Some [(''artist'', ''a-a-a''), (''album'', ''a'')])"
    by code_simp
  then show "match_path ''foo/{artist!g}-{album}/tracks.json'' ''foo/a-a-a-a/tracks.json'' =
     Inr (Some (MultiPartKey (map_of [(''artist'', ''a-a-a''), (''album'', ''a'')])))"
    by (simp add: match_path_groups)
next
  have "match_groups ''foo/{artist}-{album!g}/tracks.json'' ''foo/a-a-a-a/tracks.json'' =
      Inr (Some [(''artist'', ''a''), (''album'', ''a-a-a'')])"
    by code_simp
  then show "match_path ''foo/{artist}-{album!g}/tracks.json'' ''foo/a-a-a-a/tracks.json'' =
     Inr (Some (MultiPartKey (map_of [(''artist'', ''a''), (''album'', ''a-a-a'')])))"
    by (simp add: match_path_groups)
qed

theorem greediness_law_witness:
  "is_identifier ''a'' \<and> is_identifier ''b'' \<and>
   match_path ''{a}-{b}'' ''x-y-z'' = Inr (Some (MultiPartKey (map_of [(''a'', ''x''), (''b'', ''y-z'')]))) \<and>
   match_path ''{a!g}-{b}'' ''x-y-z'' = Inr (Some (MultiPartKey (map_of [(''a'', ''x-y''), (''b'', ''z'')])))"
proof -
  have ids: "is_identifier ''a''" "is_identifier ''b''"
    by (simp_all add: is_identifier_def is_word_char_def is_digit_def)
  have shortest: "\<forall>u' v'. u' \<noteq> [] \<and> v' \<noteq> [] \<and> u' @ ''-'' @ v' = ''x'' @ ''-'' @ ''y-z'' \<longrightarrow>
      length ''x'' \<le> length u'"
    by (simp add: Suc_le_eq)
  have longest: "\<forall>u' v'. u' \<noteq> [] \<and> v' \<noteq> [] \<and> u' @ ''-'' @ v' = ''x-y'' @ ''-'' @ ''z'' \<longrightarrow>
      length u' \<le> length ''x-y''"
  proof (intro allI impI)
    fix u' v' :: string
    assume h: "u' \<noteq> [] \<and> v' \<noteq> [] \<and> u' @ ''-'' @ v' = ''x-y'' @ ''-'' @ ''z''"
    then have "length (u' @ ''-'' @ v') = length (''x-y'' @ ''-'' @ ''z'')" by simp
    then have a: "length u' + length v' = 4" by simp
    from h have b: "1 \<le> length v'" by (cases v') simp_all
    from a b have "length u' \<le> 3" by arith
    then show "length u' \<le> length ''x-y''" by simp
  qed
  from greediness_law[of "''a''" "''b''" "''x''" "''y-z''"] ids shortest
  have lazy: "match_path ''{a}-{b}'' ''x-y-z'' =
      Inr (Some (MultiPartKey (map_of [(''a'', ''x''), (''b'', ''y-z'')])))"
    by simp
  from greediness_law[of "''a''" "''b''" "''x-y''" "''z''"] ids longest
  have greedy: "match_path ''{a!g}-{b}'' ''x-y-z'' =
      Inr (Some (MultiPartKey (map_of [(''a'', ''x-y''), (''b'', ''z'')])))"
    by simp
  from ids lazy greedy show ?thesis by simp
qed

section \<open>The segment wildcard\<close>

lemma prepend_simps [simp]:
  "prepend [] r = r"
  "prepend xs (Inr ys) = Inr (xs @ ys)"
  "prepend xs (prepend ys r) = prepend (xs @ ys) r"
  "emit x r = prepend [x] r"
  by (simp_all add: prepend_def emit_def split: sum.splits)






























end
